theory Spec2Isabelle
  imports Complex_Main
begin

section \<open>Vectors, matrices and rotations\<close>

text \<open>
  recorder.py computes with numpy arrays of floats and with scipy's
  \<^verbatim>\<open>Rotation\<close> objects. Numbers are modelled as exact reals: a 3-vector is a
  triple, a 3x3 array is a triple of rows. Rounding of IEEE doubles is outside this
  model; every statement below is about the arithmetic the code writes down.
\<close>

type_synonym vec3 = "real \<times> real \<times> real"
type_synonym mat3 = "vec3 \<times> vec3 \<times> vec3"

fun vadd :: "vec3 \<Rightarrow> vec3 \<Rightarrow> vec3" where
  "vadd (a1, a2, a3) (b1, b2, b3) = (a1 + b1, a2 + b2, a3 + b3)"

fun vsub :: "vec3 \<Rightarrow> vec3 \<Rightarrow> vec3" where
  "vsub (a1, a2, a3) (b1, b2, b3) = (a1 - b1, a2 - b2, a3 - b3)"

fun vdot :: "vec3 \<Rightarrow> vec3 \<Rightarrow> real" where
  "vdot (a1, a2, a3) (b1, b2, b3) = a1 * b1 + a2 * b2 + a3 * b3"

text \<open>\<^verbatim>\<open>M.T\<close>: the transpose of a 3x3 array.\<close>

fun mat_T :: "mat3 \<Rightarrow> mat3" where
  "mat_T ((a11, a12, a13), (a21, a22, a23), (a31, a32, a33)) =
     ((a11, a21, a31), (a12, a22, a32), (a13, a23, a33))"

text \<open>The product of a 3x3 array with a vector, row by row.\<close>

fun mat_vec :: "mat3 \<Rightarrow> vec3 \<Rightarrow> vec3" where
  "mat_vec (r1, r2, r3) v = (vdot r1 v, vdot r2 v, vdot r3 v)"

text \<open>\<^verbatim>\<open>A.dot(B)\<close> on 3x3 arrays: row i of the product is row i of A times B.\<close>

fun mat_dot :: "mat3 \<Rightarrow> mat3 \<Rightarrow> mat3" where
  "mat_dot (r1, r2, r3) B =
     (mat_vec (mat_T B) r1, mat_vec (mat_T B) r2, mat_vec (mat_T B) r3)"

text \<open>
  A scipy \<^verbatim>\<open>Rotation\<close> is represented by its direction cosine matrix.
  \<^verbatim>\<open>r.apply(v)\<close> multiplies the matrix with \<open>v\<close>, \<^verbatim>\<open>r.apply(v, True)\<close>
  (the \<^verbatim>\<open>inverse\<close> flag) multiplies the transposed matrix with \<open>v\<close>, and
  \<^verbatim>\<open>p * q\<close> is the rotation whose matrix is the product of the two matrices
  (\<open>q\<close> is applied first). \<^verbatim>\<open>Rotation.from_dcm\<close> builds the rotation of a proper
  orthogonal matrix.
\<close>

datatype Rotation = Rot (as_dcm: mat3)

definition from_dcm :: "mat3 \<Rightarrow> Rotation" where
  "from_dcm M = Rot M"

definition rot_apply :: "Rotation \<Rightarrow> vec3 \<Rightarrow> bool \<Rightarrow> vec3" where
  "rot_apply r v inverse_flag =
     (if inverse_flag then mat_vec (mat_T (as_dcm r)) v else mat_vec (as_dcm r) v)"

definition rot_mul :: "Rotation \<Rightarrow> Rotation \<Rightarrow> Rotation" where
  "rot_mul p q = Rot (mat_dot (as_dcm p) (as_dcm q))"



section \<open>ecef2enu\<close>

definition ecef2enu :: "real \<Rightarrow> real \<Rightarrow> Rotation" where
  "ecef2enu lat0 lon0 =
     (let MatNorthPole = ((-1, 0, 0), (0, -1, 0), (0, 0, 1));
          sColat = sin (pi / 2 - lat0);
          cColat = cos (pi / 2 - lat0);
          MatLat = ((cColat, 0, sColat), (0, 1, 0), (- sColat, 0, cColat));
          sLon = sin lon0;
          cLon = cos lon0;
          Matlon = ((cLon, - sLon, 0), (sLon, cLon, 0), (0, 0, 1))
      in from_dcm (mat_dot ((0, -1, 0), (1, 0, 0), (0, 0, 1))
                     (mat_T (mat_dot Matlon (mat_dot MatLat MatNorthPole)))))"

section \<open>rbd\_translate\<close>

text \<open>
  \<^verbatim>\<open>gps_positions\<close> is a 1-dimensional array (one position) or a 2-dimensional one
  (N positions). \<^verbatim>\<open>attitudes\<close> is a single rotation, a scipy rotation object holding
  several rotations, or an array of rotation objects (what \<^verbatim>\<open>np.ravel\<close> returns in
  \<^verbatim>\<open>get_measured_attitude\<close>).
\<close>

datatype positions = Single vec3 | Batch "vec3 list"

datatype attitudes = SingleRot Rotation | MultiRot "Rotation list" | RotArray "Rotation list"

datatype error = AttributeError | TypeError | IndexError | RecursionError | BadAddress

text \<open>The expression both branches evaluate for one position and one rotation.\<close>

definition translate1 :: "Rotation \<Rightarrow> vec3 \<Rightarrow> vec3 \<Rightarrow> vec3" where
  "translate1 att pos tr = rot_apply att (vsub (rot_apply att pos False) tr) True"

text \<open>
  The loop \<^verbatim>\<open>for i in range(len(gps_positions))\<close>, reading \<^verbatim>\<open>gps_positions[i]\<close>
  and \<^verbatim>\<open>attitudes[i]\<close>: the two sequences are walked in step, and an attitude
  sequence that ends first raises IndexError.
\<close>

fun car_pos :: "vec3 list \<Rightarrow> Rotation list \<Rightarrow> vec3 \<Rightarrow> error + vec3 list" where
  "car_pos [] atts tr = Inr []"
| "car_pos (p # ps) [] tr = Inl IndexError"
| "car_pos (p # ps) (a # atts) tr =
     (case car_pos ps atts tr of
        Inl e \<Rightarrow> Inl e
      | Inr rest \<Rightarrow> Inr (translate1 a p tr # rest))"

text \<open>
  In the first branch scipy broadcasts a rotation object holding several rotations over
  the single vector; an array of rotation objects has no \<^verbatim>\<open>apply\<close>. In the second
  branch a single rotation cannot be indexed.
\<close>

fun rbd_translate :: "positions \<Rightarrow> attitudes \<Rightarrow> vec3 \<Rightarrow> error + positions" where
  "rbd_translate (Single p) (SingleRot a) tr = Inr (Single (translate1 a p tr))"
| "rbd_translate (Single p) (MultiRot atts) tr = Inr (Batch (map (\<lambda>a. translate1 a p tr) atts))"
| "rbd_translate (Single p) (RotArray atts) tr = Inl AttributeError"
| "rbd_translate (Batch ps) (SingleRot a) tr = (if ps = [] then Inr (Batch []) else Inl TypeError)"
| "rbd_translate (Batch ps) (MultiRot atts) tr = map_sum id Batch (car_pos ps atts tr)"
| "rbd_translate (Batch ps) (RotArray atts) tr = map_sum id Batch (car_pos ps atts tr)"

section \<open>The reader and the measured trajectory\<close>

text \<open>
  The reader is the collaborator \<^verbatim>\<open>self.reader\<close>. \<open>get_timestamps\<close> stands for the
  call \<^verbatim>\<open>get_timestamps(0, np.inf)\<close>; \<open>image_transformation_from\<close> takes the later
  frame first, as the method call does.
\<close>

record 'd reader =
  get_gps_pos :: "nat \<Rightarrow> vec3"
  get_gps_att :: "nat \<Rightarrow> Rotation"
  get_timestamps :: "real list"
  get_radardata :: "real \<Rightarrow> 'd"
  image_transformation_from :: "'d \<Rightarrow> 'd \<Rightarrow> vec3 \<times> Rotation"

text \<open>What the loop body reads at index \<open>i\<close>.\<close>

definition transformation :: "'d reader \<Rightarrow> nat \<Rightarrow> vec3 \<times> Rotation" where
  "transformation rd i =
     image_transformation_from rd (get_radardata rd (get_timestamps rd ! i))
                                  (get_radardata rd (get_timestamps rd ! (i - 1)))"

text \<open>One pass of the loop of \<^verbatim>\<open>get_measured_attitude\<close>.\<close>

definition attitude_step :: "'d reader \<Rightarrow> nat \<Rightarrow> Rotation list \<Rightarrow> Rotation list" where
  "attitude_step rd i measured_att =
     (let (_, rotation) = transformation rd i
      in measured_att @ [rot_mul (last measured_att) rotation])"

definition measured_attitude_upto :: "'d reader \<Rightarrow> nat \<Rightarrow> Rotation list" where
  "measured_attitude_upto rd n = fold (attitude_step rd) [1..<n] [get_gps_att rd 0]"

definition get_measured_attitude :: "'d reader \<Rightarrow> Rotation list" where
  "get_measured_attitude rd = measured_attitude_upto rd (length (get_timestamps rd))"

text \<open>
  One pass of the loop of \<^verbatim>\<open>get_measured_positions\<close>, on the pair of lists
  \<^verbatim>\<open>measured_pos\<close> and \<^verbatim>\<open>measured_att\<close>.
\<close>

definition position_step ::
  "'d reader \<Rightarrow> nat \<Rightarrow> vec3 list \<times> Rotation list \<Rightarrow> vec3 list \<times> Rotation list" where
  "position_step rd i s =
     (let (measured_pos, measured_att) = s;
          (translation, rotation) = transformation rd i
      in (measured_pos @ [vadd (last measured_pos) (rot_apply (last measured_att) translation True)],
          measured_att @ [rot_mul (last measured_att) rotation]))"

definition measured_positions_upto :: "'d reader \<Rightarrow> nat \<Rightarrow> vec3 list \<times> Rotation list" where
  "measured_positions_upto rd n =
     fold (position_step rd) [1..<n] ([get_gps_pos rd 0], [get_gps_att rd 0])"

definition get_measured_positions :: "'d reader \<Rightarrow> vec3 list" where
  "get_measured_positions rd = fst (measured_positions_upto rd (length (get_timestamps rd)))"

text \<open>The list \<^verbatim>\<open>measured_att\<close> that \<^verbatim>\<open>get_measured_positions\<close> builds on the side.\<close>

definition get_measured_positions_att :: "'d reader \<Rightarrow> Rotation list" where
  "get_measured_positions_att rd = snd (measured_positions_upto rd (length (get_timestamps rd)))"

section \<open>The heap of Python objects\<close>

text \<open>
  \<^verbatim>\<open>Recorder.record\<close> stores \<^verbatim>\<open>deepcopy(self.kalman)\<close>. What a copy shares with
  its original is a question about references, so the objects live in an explicit heap:
  a list of cells, the address of a cell being its index. A cell is a numeric array
  (a leaf that can be written in place) or an object with named references to other
  cells: the estimator itself, a scipy rotation (which holds its quaternion array), a
  tuple (its components named by their index). A fresh cell is appended to the list.
  The class of the estimator is not part of recorder.py: nothing is fixed about its
  attributes, and the projections below read \<^verbatim>\<open>position\<close> and \<^verbatim>\<open>attitude\<close>.
\<close>

type_synonym addr = nat

datatype cell = Arr "real list" | Obj "(string \<times> addr) list"

type_synonym heap = "cell list"

fun refs :: "cell \<Rightarrow> addr set" where
  "refs (Arr xs) = {}"
| "refs (Obj fs) = snd ` set fs"

text \<open>
  \<^verbatim>\<open>d[k] = v\<close> on a Python dictionary, which keeps its keys in insertion order:
  a key that is present keeps its place and takes the new value, a new key goes last.
  The attributes of an object are such a dictionary as well.
\<close>

fun dict_set :: "('k \<times> 'v) list \<Rightarrow> 'k \<Rightarrow> 'v \<Rightarrow> ('k \<times> 'v) list" where
  "dict_set [] k v = [(k, v)]"
| "dict_set ((k', v') # kvs) k v =
     (if k' = k then (k, v) # kvs else (k', v') # dict_set kvs k v)"

subsection \<open>deepcopy\<close>

text \<open>
  \<^verbatim>\<open>copy.deepcopy\<close> walks the object graph with a memo from originals to copies.
  An original found in the memo is answered by its copy. An array is copied to a fresh
  cell. For an object the fresh copy is entered in the memo first, then the attributes
  are copied in order and stored in it. The first argument is the recursion depth left:
  Python raises RecursionError when it is used up. \<open>BadAddress\<close> answers a reference
  to no cell, which a Python heap never holds.
\<close>

type_synonym memo = "addr \<Rightarrow> addr option"

fun deepcopy :: "nat \<Rightarrow> addr \<Rightarrow> heap \<times> memo \<Rightarrow> error + addr \<times> heap \<times> memo"
  and deepcopy_fields ::
    "nat \<Rightarrow> (string \<times> addr) list \<Rightarrow> heap \<times> memo \<Rightarrow>
       error + (string \<times> addr) list \<times> heap \<times> memo"
  where
  "deepcopy 0 x (h, m) = Inl RecursionError"
| "deepcopy (Suc n) x (h, m) =
     (case m x of
        Some y \<Rightarrow> Inr (y, h, m)
      | None \<Rightarrow>
          if x < length h then
            (case h ! x of
               Arr xs \<Rightarrow> Inr (length h, h @ [Arr xs], m(x \<mapsto> length h))
             | Obj fs \<Rightarrow>
                 (case deepcopy_fields n fs (h @ [Obj []], m(x \<mapsto> length h)) of
                    Inl e \<Rightarrow> Inl e
                  | Inr (fs', h', m') \<Rightarrow> Inr (length h, h'[length h := Obj fs'], m')))
          else Inl BadAddress)"
| "deepcopy_fields n [] (h, m) = Inr ([], h, m)"
| "deepcopy_fields n ((f, x) # fs) (h, m) =
     (case deepcopy n x (h, m) of
        Inl e \<Rightarrow> Inl e
      | Inr (y, h', m') \<Rightarrow>
          (case deepcopy_fields n fs (h', m') of
             Inl e \<Rightarrow> Inl e
           | Inr (fs', h'', m'') \<Rightarrow> Inr ((f, y) # fs', h'', m'')))"

section \<open>The recorder\<close>

text \<open>
  The state of a \<^verbatim>\<open>Recorder\<close>: the heap, the reference \<^verbatim>\<open>self.kalman\<close> to the live
  estimator and the dictionary \<^verbatim>\<open>self.kalman_record\<close> from timestamps to references.
  (\<^verbatim>\<open>self.reader\<close> is the reader of the previous section.)
\<close>

record recorder =
  heap :: heap
  kalman :: addr
  kalman_record :: "(real \<times> addr) list"

text \<open>\<^verbatim>\<open>self.kalman_record[ts] = deepcopy(self.kalman)\<close>, with the recursion depth left.\<close>

definition recorder_record :: "nat \<Rightarrow> real \<Rightarrow> recorder \<Rightarrow> error + recorder" where
  "recorder_record depth ts s =
     (case deepcopy depth (kalman s) (heap s, Map.empty) of
        Inl e \<Rightarrow> Inl e
      | Inr (y, h', m') \<Rightarrow>
          Inr (s\<lparr>heap := h', kalman_record := dict_set (kalman_record s) ts y\<rparr>))"

text \<open>The attribute access \<^verbatim>\<open>x.name\<close>.\<close>

definition getattr :: "heap \<Rightarrow> addr \<Rightarrow> string \<Rightarrow> error + addr" where
  "getattr h x name =
     (if x < length h then
        (case h ! x of
           Obj fs \<Rightarrow> (case map_of fs name of Some y \<Rightarrow> Inr y | None \<Rightarrow> Inl AttributeError)
         | Arr xs \<Rightarrow> Inl AttributeError)
      else Inl BadAddress)"

text \<open>A list comprehension whose elements may raise: the first error ends it.\<close>

fun collect :: "(error + 'a) list \<Rightarrow> error + 'a list" where
  "collect [] = Inr []"
| "collect (Inl e # rs) = Inl e"
| "collect (Inr x # rs) = (case collect rs of Inl e \<Rightarrow> Inl e | Inr xs \<Rightarrow> Inr (x # xs))"

text \<open>
  \<^verbatim>\<open>kalman.position\<close> as \<^verbatim>\<open>np.array\<close> reads it: the numbers of the array the
  attribute refers to. The estimator keeps its position in a numeric array; for a
  position that is another kind of object \<^verbatim>\<open>np.array\<close> would build an array of
  objects, which this model leaves out and answers with TypeError.
\<close>

definition position_of :: "heap \<Rightarrow> addr \<Rightarrow> error + real list" where
  "position_of h x =
     (case getattr h x ''position'' of
        Inl e \<Rightarrow> Inl e
      | Inr p \<Rightarrow>
          if p < length h then (case h ! p of Arr xs \<Rightarrow> Inr xs | Obj fs \<Rightarrow> Inl TypeError)
          else Inl BadAddress)"

text \<open>
  \<^verbatim>\<open>get_positions\<close> and \<^verbatim>\<open>get_attitude\<close> run over \<^verbatim>\<open>self.kalman_record.values()\<close>,
  that is over the dictionary in its own order. \<^verbatim>\<open>get_positions\<close> builds a numeric
  array; \<^verbatim>\<open>get_attitude\<close> returns an array of references to the rotation objects.
  The attitude of an estimator is one rotation, so \<^verbatim>\<open>np.ravel\<close> has one entry per
  snapshot; a rotation object holding several rotations, which it would spread over
  several entries, is left out.
\<close>

definition get_positions :: "recorder \<Rightarrow> error + real list list" where
  "get_positions s = collect (map (\<lambda>(ts, x). position_of (heap s) x) (kalman_record s))"

definition get_attitude :: "recorder \<Rightarrow> error + addr list" where
  "get_attitude s = collect (map (\<lambda>(ts, x). getattr (heap s) x ''attitude'') (kalman_record s))"

text \<open>
  What a reference shows to someone who follows it \<open>n\<close> levels deep: the numbers of an
  array, the attributes of an object and what they show in turn.
\<close>

datatype pyvalue = VArr "real list" | VObj "(string \<times> pyvalue) list" | VCut | VBad

fun value_at :: "nat \<Rightarrow> heap \<Rightarrow> addr \<Rightarrow> pyvalue" where
  "value_at 0 h x = VCut"
| "value_at (Suc n) h x =
     (if x < length h then
        (case h ! x of
           Arr xs \<Rightarrow> VArr xs
         | Obj fs \<Rightarrow> VObj (map (\<lambda>(f, y). (f, value_at n h y)) fs))
      else VBad)"

section \<open>What happens between two projections\<close>

text \<open>
  Between calls of the recorder the program changes the heap. \<open>Write x c\<close> overwrites the
  cell at \<open>x\<close> (an array written in place, an attribute set to an existing object);
  \<open>Attach x name c\<close> creates the cell \<open>c\<close> and sets the attribute \<open>name\<close> of the
  object at \<open>x\<close> to it (\<^verbatim>\<open>x.name = new\<close>).
\<close>

datatype event = Record real | Write addr cell | Attach addr string cell

fun step :: "nat \<Rightarrow> event \<Rightarrow> recorder \<Rightarrow> error + recorder" where
  "step depth (Record ts) s = recorder_record depth ts s"
| "step depth (Write x c) s =
     (if x < length (heap s) then Inr (s\<lparr>heap := (heap s)[x := c]\<rparr>) else Inl BadAddress)"
| "step depth (Attach x name c) s =
     (if x < length (heap s) then
        (case heap s ! x of
           Obj fs \<Rightarrow>
             Inr (s\<lparr>heap := (heap s @ [c])[x := Obj (dict_set fs name (length (heap s)))]\<rparr>)
         | Arr xs \<Rightarrow> Inl AttributeError)
      else Inl BadAddress)"

fun run :: "nat \<Rightarrow> event list \<Rightarrow> recorder \<Rightarrow> error + recorder" where
  "run depth [] s = Inr s"
| "run depth (ev # evs) s =
     (case step depth ev s of Inl e \<Rightarrow> Inl e | Inr s' \<Rightarrow> run depth evs s')"

text \<open>The timestamps a list of events records, in order.\<close>

fun recorded :: "event list \<Rightarrow> real list" where
  "recorded [] = []"
| "recorded (Record ts # evs) = ts # recorded evs"
| "recorded (ev # evs) = recorded evs"

text \<open>The keys of a dictionary after the given keys have been set in order.\<close>

fun insertion_order :: "'k list \<Rightarrow> 'k list \<Rightarrow> 'k list" where
  "insertion_order keys [] = keys"
| "insertion_order keys (k # ks) =
     insertion_order (if k \<in> set keys then keys else keys @ [k]) ks"

subsection \<open>The cells of the live estimator\<close>

text \<open>The cells reachable from a reference by following references.\<close>

inductive_set reach :: "heap \<Rightarrow> addr \<Rightarrow> addr set" for h :: heap and r :: addr where
  root: "r \<in> reach h r"
| step: "x \<in> reach h r \<Longrightarrow> x < length h \<Longrightarrow> y \<in> refs (h ! x) \<Longrightarrow> y \<in> reach h r"

text \<open>No cell refers to an address that holds no cell.\<close>

definition wf_heap :: "heap \<Rightarrow> bool" where
  "wf_heap h = list_all (\<lambda>c. \<forall>y \<in> refs c. y < length h) h"

text \<open>
  A mutation of the live estimator: the estimator writes one of its own cells, or
  attaches a new cell to one of its own objects, and what it writes refers to its own
  cells only.
\<close>

fun own_event :: "recorder \<Rightarrow> event \<Rightarrow> bool" where
  "own_event s (Record ts) = False"
| "own_event s (Write x c) =
     (x \<in> reach (heap s) (kalman s) \<and> refs c \<subseteq> reach (heap s) (kalman s))"
| "own_event s (Attach x name c) =
     (x \<in> reach (heap s) (kalman s) \<and> refs c \<subseteq> reach (heap s) (kalman s))"

fun own_run :: "nat \<Rightarrow> event list \<Rightarrow> recorder \<Rightarrow> bool" where
  "own_run depth [] s = True"
| "own_run depth (ev # evs) s =
     (own_event s ev \<and>
      (case step depth ev s of Inl e \<Rightarrow> True | Inr s' \<Rightarrow> own_run depth evs s'))"

text \<open>
  The state of a recorder in use: the heap is well formed, and no cell of a stored
  snapshot is a cell of the live estimator.
\<close>

definition separated :: "recorder \<Rightarrow> bool" where
  "separated s =
     (wf_heap (heap s) \<and> kalman s < length (heap s) \<and>
      (\<forall>(ts, x) \<in> set (kalman_record s).
         x < length (heap s) \<and> reach (heap s) x \<inter> reach (heap s) (kalman s) = {}))"

subsection \<open>The state of a copy in progress\<close>

text \<open>
  While \<^verbatim>\<open>deepcopy\<close> runs on the heap \<open>h0\<close>, the heap \<open>h\<close> it has built keeps
  \<open>h0\<close> as its first cells, the memo \<open>m\<close> answers with cells created since, and the
  cells created since refer to such cells only.
\<close>

definition in_copy :: "heap \<Rightarrow> heap \<Rightarrow> memo \<Rightarrow> bool" where
  "in_copy h0 h m \<longleftrightarrow>
     length h0 \<le> length h \<and> take (length h0) h = h0 \<and>
     (\<forall>x y. m x = Some y \<longrightarrow> length h0 \<le> y \<and> y < length h) \<and>
     (\<forall>x. length h0 \<le> x \<and> x < length h \<longrightarrow> (\<forall>y \<in> refs (h ! x). length h0 \<le> y \<and> y < length h))"

text \<open>What a call of \<^verbatim>\<open>deepcopy\<close> that started in \<open>(h, m)\<close> leaves in \<open>(h', m')\<close>.\<close>

definition copy_post :: "heap \<Rightarrow> heap \<Rightarrow> memo \<Rightarrow> heap \<Rightarrow> memo \<Rightarrow> bool" where
  "copy_post h0 h m h' m' \<longleftrightarrow>
     in_copy h0 h' m' \<and> length h \<le> length h' \<and> m \<subseteq>\<^sub>m m' \<and>
     (\<forall>z < length h. h' ! z = h ! z) \<and>
     (\<forall>z w. m z = None \<longrightarrow> m' z = Some w \<longrightarrow> length h \<le> w)"

text \<open>The cells of \<open>h0\<close> that the memo does not answer yet.\<close>

definition todo :: "heap \<Rightarrow> memo \<Rightarrow> nat" where
  "todo h0 m = card {z. z < length h0 \<and> m z = None}"

text \<open>The heap \<open>h'\<close> holds, at every address of \<open>A\<close>, the cell \<open>h\<close> holds there.\<close>

definition unchanged :: "heap \<Rightarrow> heap \<Rightarrow> addr set \<Rightarrow> bool" where
  "unchanged h h' A \<longleftrightarrow> (\<forall>x \<in> A. x < length h \<and> x < length h' \<and> h' ! x = h ! x)"

text \<open>
  The cell at \<open>y\<close> is a finished copy of the cell \<open>x\<close> of \<open>h0\<close>: the same numbers, or
  the same attribute names with the references the memo answers.
\<close>

definition copied :: "heap \<Rightarrow> heap \<Rightarrow> memo \<Rightarrow> addr \<Rightarrow> addr \<Rightarrow> bool" where
  "copied h0 h m x y \<longleftrightarrow>
     x < length h0 \<and> y < length h \<and>
     (case h0 ! x of
        Arr xs \<Rightarrow> h ! y = Arr xs
      | Obj fs \<Rightarrow>
          (\<exists>fs'. h ! y = Obj fs' \<and>
             list_all2 (\<lambda>fx fy. fst fy = fst fx \<and> m (snd fx) = Some (snd fy)) fs fs'))"

section \<open>Example inputs\<close>

text \<open>A quarter turn about the third axis, and a reader whose seed attitude it is.\<close>

definition rot_z90 :: Rotation where
  "rot_z90 = Rot ((0, -1, 0), (1, 0, 0), (0, 0, 1))"

definition turn_reader :: "real reader" where
  "turn_reader =
     \<lparr> get_gps_pos = (\<lambda>i. (0, 0, 0)),
       get_gps_att = (\<lambda>i. rot_z90),
       get_timestamps = [0, 1],
       get_radardata = (\<lambda>t. t),
       image_transformation_from = (\<lambda>later earlier. ((1, 0, 0), rot_z90)) \<rparr>"

text \<open>The same reader with its two timestamps in decreasing order.\<close>

definition backwards_reader :: "real reader" where
  "backwards_reader = turn_reader \<lparr> get_timestamps := [2, 1] \<rparr>"

text \<open>
  An estimator with a position array and a rotation that holds its quaternion, and a
  recorder that has recorded nothing yet.
\<close>

definition estimator_heap :: heap where
  "estimator_heap =
     [Obj [(''position'', 1), (''attitude'', 2)],
      Arr [3, 0, 0],
      Obj [(''_quat'', 3)],
      Arr [0, 0, 0, 1]]"

definition fresh_recorder :: recorder where
  "fresh_recorder = \<lparr>heap = estimator_heap, kalman = 0, kalman_record = []\<rparr>"

text \<open>
  Recording at the timestamps 3, 1, 2, the estimator moving to the position of the same
  number before each; and recording at 1, 2 with the state that results.
\<close>

definition out_of_order :: "event list" where
  "out_of_order =
     [Record 3, Write 1 (Arr [1, 0, 0]), Record 1, Write 1 (Arr [2, 0, 0]), Record 2]"

definition in_order :: "event list" where
  "in_order = [Record 1, Write 1 (Arr [1, 0, 0]), Record 2]"

definition in_order_result :: recorder where
  "in_order_result =
     \<lparr>heap =
        [Obj [(''position'', 1), (''attitude'', 2)], Arr [1, 0, 0],
         Obj [(''_quat'', 3)], Arr [0, 0, 0, 1],
         Obj [(''position'', 5), (''attitude'', 6)], Arr [3, 0, 0],
         Obj [(''_quat'', 7)], Arr [0, 0, 0, 1],
         Obj [(''position'', 9), (''attitude'', 10)], Arr [1, 0, 0],
         Obj [(''_quat'', 11)], Arr [0, 0, 0, 1]],
      kalman = 0,
      kalman_record = [(1, 4), (2, 8)]\<rparr>"

text \<open>
  The fresh recorder after \<^verbatim>\<open>record(3)\<close>, and after the estimator has then moved its
  position array to (1, 0, 0) in place.
\<close>

definition recorded_once :: recorder where
  "recorded_once =
     \<lparr>heap =
        [Obj [(''position'', 1), (''attitude'', 2)], Arr [3, 0, 0],
         Obj [(''_quat'', 3)], Arr [0, 0, 0, 1],
         Obj [(''position'', 5), (''attitude'', 6)], Arr [3, 0, 0],
         Obj [(''_quat'', 7)], Arr [0, 0, 0, 1]],
      kalman = 0,
      kalman_record = [(3, 4)]\<rparr>"

definition moved_on :: recorder where
  "moved_on = recorded_once \<lparr>heap := (heap recorded_once)[1 := Arr [1, 0, 0]]\<rparr>"

text \<open>
  Recording at 3 and 1 and then at 3 again, the estimator moving in between; the state
  before the last call and the state after it.
\<close>

definition record_again :: "event list" where
  "record_again =
     [Record 3, Write 1 (Arr [1, 0, 0]), Record 1, Write 1 (Arr [2, 0, 0]), Record 3]"

definition record_again_before :: recorder where
  "record_again_before =
     \<lparr>heap =
        [Obj [(''position'', 1), (''attitude'', 2)], Arr [2, 0, 0],
         Obj [(''_quat'', 3)], Arr [0, 0, 0, 1],
         Obj [(''position'', 5), (''attitude'', 6)], Arr [3, 0, 0],
         Obj [(''_quat'', 7)], Arr [0, 0, 0, 1],
         Obj [(''position'', 9), (''attitude'', 10)], Arr [1, 0, 0],
         Obj [(''_quat'', 11)], Arr [0, 0, 0, 1]],
      kalman = 0,
      kalman_record = [(3, 4), (1, 8)]\<rparr>"

definition record_again_result :: recorder where
  "record_again_result =
     \<lparr>heap =
        [Obj [(''position'', 1), (''attitude'', 2)], Arr [2, 0, 0],
         Obj [(''_quat'', 3)], Arr [0, 0, 0, 1],
         Obj [(''position'', 5), (''attitude'', 6)], Arr [3, 0, 0],
         Obj [(''_quat'', 7)], Arr [0, 0, 0, 1],
         Obj [(''position'', 9), (''attitude'', 10)], Arr [1, 0, 0],
         Obj [(''_quat'', 11)], Arr [0, 0, 0, 1],
         Obj [(''position'', 13), (''attitude'', 14)], Arr [2, 0, 0],
         Obj [(''_quat'', 15)], Arr [0, 0, 0, 1]],
      kalman = 0,
      kalman_record = [(3, 12), (1, 8)]\<rparr>"


section \<open>The loops of the measured trajectory\<close>

lemma att_upto_Suc:
  "0 < n \<Longrightarrow> measured_attitude_upto rd (Suc n) = attitude_step rd n (measured_attitude_upto rd n)"
  by (simp add: measured_attitude_upto_def)

lemma pos_upto_Suc:
  "0 < n \<Longrightarrow> measured_positions_upto rd (Suc n) = position_step rd n (measured_positions_upto rd n)"
  by (simp add: measured_positions_upto_def)

lemma att_upto_seed: "n \<le> 1 \<Longrightarrow> measured_attitude_upto rd n = [get_gps_att rd 0]"
  by (simp add: measured_attitude_upto_def)

lemma pos_upto_seed:
  "n \<le> 1 \<Longrightarrow> measured_positions_upto rd n = ([get_gps_pos rd 0], [get_gps_att rd 0])"
  by (simp add: measured_positions_upto_def)

lemma attitude_step_eq:
  "attitude_step rd i xs = xs @ [rot_mul (last xs) (snd (transformation rd i))]"
  by (simp add: attitude_step_def split: prod.splits)

lemma position_step_eq:
  "position_step rd i (ps, xs) =
     (ps @ [vadd (last ps) (rot_apply (last xs) (fst (transformation rd i)) True)],
      xs @ [rot_mul (last xs) (snd (transformation rd i))])"
  by (simp add: position_step_def split: prod.splits)

lemma length_att_upto: "length (measured_attitude_upto rd n) = max 1 n"
proof (induction n)
  case 0
  show ?case by (simp add: att_upto_seed)
next
  case (Suc n)
  show ?case
  proof (cases "n = 0")
    case True
    then show ?thesis by (simp add: att_upto_seed)
  next
    case False
    then show ?thesis using Suc
      by (simp add: att_upto_Suc attitude_step_eq)
  qed
qed

text \<open>The attitudes kept beside the positions are those of the attitude loop.\<close>

lemma pos_att_upto: "snd (measured_positions_upto rd n) = measured_attitude_upto rd n"
proof (induction n)
  case 0
  show ?case by (simp add: att_upto_seed pos_upto_seed)
next
  case (Suc n)
  show ?case
  proof (cases "n = 0")
    case True
    then show ?thesis by (simp add: att_upto_seed pos_upto_seed)
  next
    case False
    obtain ps xs where s: "measured_positions_upto rd n = (ps, xs)"
      by (cases "measured_positions_upto rd n")
    with Suc have "xs = measured_attitude_upto rd n" by simp
    with False s show ?thesis
      by (simp add: att_upto_Suc pos_upto_Suc attitude_step_eq position_step_eq)
  qed
qed

lemma length_pos_upto: "length (fst (measured_positions_upto rd n)) = max 1 n"
proof (induction n)
  case 0
  show ?case by (simp add: pos_upto_seed)
next
  case (Suc n)
  show ?case
  proof (cases "n = 0")
    case True
    then show ?thesis by (simp add: pos_upto_seed)
  next
    case False
    obtain ps xs where s: "measured_positions_upto rd n = (ps, xs)"
      by (cases "measured_positions_upto rd n")
    with False Suc show ?thesis
      by (simp add: pos_upto_Suc position_step_eq)
  qed
qed

text \<open>Both loops only append: an entry, once written, keeps its value.\<close>

lemma att_upto_prefix:
  "i < max 1 m \<Longrightarrow> m \<le> n \<Longrightarrow>
   measured_attitude_upto rd n ! i = measured_attitude_upto rd m ! i"
proof (induction n)
  case 0
  then show ?case by simp
next
  case (Suc n)
  show ?case
  proof (cases "m = Suc n")
    case True
    then show ?thesis by simp
  next
    case False
    with Suc.prems have mn: "m \<le> n" by simp
    show ?thesis
    proof (cases "n = 0")
      case True
      with mn show ?thesis by (simp add: att_upto_seed)
    next
      case False
      have "i < length (measured_attitude_upto rd n)"
        using Suc.prems(1) mn by (simp add: length_att_upto)
      then have "measured_attitude_upto rd (Suc n) ! i = measured_attitude_upto rd n ! i"
        using False by (simp add: att_upto_Suc attitude_step_eq nth_append)
      with Suc.IH[OF Suc.prems(1) mn] show ?thesis by simp
    qed
  qed
qed

lemma pos_upto_prefix:
  "i < max 1 m \<Longrightarrow> m \<le> n \<Longrightarrow>
   fst (measured_positions_upto rd n) ! i = fst (measured_positions_upto rd m) ! i"
proof (induction n)
  case 0
  then show ?case by simp
next
  case (Suc n)
  show ?case
  proof (cases "m = Suc n")
    case True
    then show ?thesis by simp
  next
    case False
    with Suc.prems have mn: "m \<le> n" by simp
    show ?thesis
    proof (cases "n = 0")
      case True
      with mn show ?thesis by (simp add: pos_upto_seed)
    next
      case False
      obtain ps xs where s: "measured_positions_upto rd n = (ps, xs)"
        by (cases "measured_positions_upto rd n")
      have "i < length (fst (measured_positions_upto rd n))"
        using Suc.prems(1) mn by (simp add: length_pos_upto)
      then have "fst (measured_positions_upto rd (Suc n)) ! i = fst (measured_positions_upto rd n) ! i"
        using False s by (simp add: pos_upto_Suc position_step_eq nth_append)
      with Suc.IH[OF Suc.prems(1) mn] show ?thesis by simp
    qed
  qed
qed

text \<open>The entry a pass appends.\<close>

lemma att_upto_last:
  assumes n: "0 < n"
  shows "measured_attitude_upto rd (Suc n) ! n =
           rot_mul (measured_attitude_upto rd n ! (n - 1)) (snd (transformation rd n))"
proof -
  have len: "length (measured_attitude_upto rd n) = n"
    using n by (simp add: length_att_upto)
  then have ne: "measured_attitude_upto rd n \<noteq> []"
    using n by auto
  show ?thesis using n len ne
    by (simp add: att_upto_Suc attitude_step_eq nth_append last_conv_nth)
qed

lemma pos_upto_last:
  assumes n: "0 < n"
  shows "fst (measured_positions_upto rd (Suc n)) ! n =
           vadd (fst (measured_positions_upto rd n) ! (n - 1))
                (rot_apply (measured_attitude_upto rd n ! (n - 1)) (fst (transformation rd n)) True)"
proof -
  obtain ps xs where s: "measured_positions_upto rd n = (ps, xs)"
    by (cases "measured_positions_upto rd n")
  have xs: "xs = measured_attitude_upto rd n"
    using pos_att_upto[of rd n] s by simp
  have lp: "length ps = n"
    using length_pos_upto[of rd n] s n by simp
  have lx: "length xs = n"
    using xs n by (simp add: length_att_upto)
  from lp lx n have ne: "ps \<noteq> []" "xs \<noteq> []" by auto
  show ?thesis using n s lp lx ne xs[symmetric]
    by (simp add: pos_upto_Suc position_step_eq nth_append last_conv_nth)
qed

lemma att_upto_recurrence:
  assumes "1 \<le> i" "i < n"
  shows "measured_attitude_upto rd n ! i =
           rot_mul (measured_attitude_upto rd n ! (i - 1)) (snd (transformation rd i))"
proof -
  have a: "measured_attitude_upto rd n ! i = measured_attitude_upto rd (Suc i) ! i"
    using assms by (intro att_upto_prefix) auto
  have b: "measured_attitude_upto rd n ! (i - 1) = measured_attitude_upto rd i ! (i - 1)"
    using assms by (intro att_upto_prefix) auto
  show ?thesis using assms a b att_upto_last[of i rd] by simp
qed

lemma pos_upto_recurrence:
  assumes "1 \<le> i" "i < n"
  shows "fst (measured_positions_upto rd n) ! i =
           vadd (fst (measured_positions_upto rd n) ! (i - 1))
                (rot_apply (measured_attitude_upto rd n ! (i - 1)) (fst (transformation rd i)) True)"
proof -
  have a: "fst (measured_positions_upto rd n) ! i = fst (measured_positions_upto rd (Suc i)) ! i"
    using assms by (intro pos_upto_prefix) auto
  have b: "fst (measured_positions_upto rd n) ! (i - 1) = fst (measured_positions_upto rd i) ! (i - 1)"
    using assms by (intro pos_upto_prefix) auto
  have c: "measured_attitude_upto rd n ! (i - 1) = measured_attitude_upto rd i ! (i - 1)"
    using assms by (intro att_upto_prefix) auto
  show ?thesis using assms a b c pos_upto_last[of i rd] by simp
qed

lemma att_upto_first: "measured_attitude_upto rd n ! 0 = get_gps_att rd 0"
  using att_upto_prefix[of 0 0 n rd] by (simp add: att_upto_seed)

section \<open>The position recurrence\<close>

text \<open>
  Claim C1, as the code has it: for every reader and every index \<open>i\<close> from 1 to N-1,
  where N is the number of timestamps, the measured position at \<open>i\<close> is the position
  at \<open>i - 1\<close> plus the translation of step \<open>i\<close> rotated by the previous attitude with
  the inverse flag set (\<^verbatim>\<open>measured_att[-1].apply(translation, True)\<close>): the
  translation goes through the inverse of the previous attitude, not through the
  attitude itself.
\<close>

theorem get_measured_positions_recurrence:
  assumes "1 \<le> i" and "i < length (get_timestamps rd)"
  shows "get_measured_positions rd ! i =
           vadd (get_measured_positions rd ! (i - 1))
                (rot_apply (get_measured_attitude rd ! (i - 1)) (fst (transformation rd i)) True)"
  unfolding get_measured_positions_def get_measured_attitude_def
  using assms by (rule pos_upto_recurrence)

theorem get_measured_positions_recurrence_witness:
  "(1::nat) \<le> 1 \<and> 1 < length (get_timestamps turn_reader) \<and>
   get_measured_positions turn_reader ! 1 =
     vadd (get_measured_positions turn_reader ! (1 - 1))
          (rot_apply (get_measured_attitude turn_reader ! (1 - 1))
             (fst (transformation turn_reader 1)) True)"
  using get_measured_positions_recurrence[of 1 turn_reader]
  by (simp add: turn_reader_def)

text \<open>
  With the seed attitude a quarter turn, the forward application of the previous
  attitude gives another position than the one the code appends.
\<close>

theorem get_measured_positions_forward_counterexample:
  "get_measured_positions turn_reader ! 1 \<noteq>
     vadd (get_measured_positions turn_reader ! 0)
          (rot_apply (get_measured_attitude turn_reader ! 0)
             (fst (transformation turn_reader 1)) False)"
  by (simp add: get_measured_positions_def measured_positions_upto_def
      get_measured_attitude_def measured_attitude_upto_def position_step_def
      attitude_step_def transformation_def turn_reader_def rot_apply_def rot_z90_def)

section \<open>Timestamps that are not increasing\<close>

text \<open>
  Claim C3, as the code has it: neither loop compares timestamps. For every timestamp
  sequence, increasing or not, \<^verbatim>\<open>get_measured_positions\<close> and
  \<^verbatim>\<open>get_measured_attitude\<close> return a trajectory with one pose per timestamp
  (the seed alone for an empty sequence); no ordering error is raised.
\<close>

theorem measured_trajectory_length:
  "length (get_measured_positions rd) = max 1 (length (get_timestamps rd)) \<and>
   length (get_measured_attitude rd) = max 1 (length (get_timestamps rd))"
  by (simp add: get_measured_positions_def get_measured_attitude_def
      length_pos_upto length_att_upto)

text \<open>Two timestamps in decreasing order: both functions return two poses.\<close>

theorem measured_trajectory_ordering_counterexample:
  "\<not> sorted_wrt (<) (get_timestamps backwards_reader) \<and>
   get_measured_positions backwards_reader = [(0, 0, 0), (0, -1, 0)] \<and>
   get_measured_attitude backwards_reader =
     [rot_z90, Rot ((-1, 0, 0), (0, -1, 0), (0, 0, 1))]"
  by (simp add: get_measured_positions_def measured_positions_upto_def
      get_measured_attitude_def measured_attitude_upto_def position_step_def
      attitude_step_def transformation_def backwards_reader_def turn_reader_def
      rot_apply_def rot_mul_def rot_z90_def)

section \<open>The attitude recurrence\<close>

text \<open>
  Claim C4: for every reader, the first measured attitude is the seed
  \<^verbatim>\<open>get_gps_att(0)\<close>, and for every index \<open>i\<close> from 1 to N-1 the attitude at \<open>i\<close>
  is the attitude at \<open>i - 1\<close> multiplied on the right by the rotation of step \<open>i\<close>
  (\<^verbatim>\<open>measured_att[-1] * rotation\<close>).
\<close>

theorem get_measured_attitude_recurrence:
  "get_measured_attitude rd ! 0 = get_gps_att rd 0 \<and>
   (\<forall>i. 1 \<le> i \<and> i < length (get_timestamps rd) \<longrightarrow>
      get_measured_attitude rd ! i =
        rot_mul (get_measured_attitude rd ! (i - 1)) (snd (transformation rd i)))"
  unfolding get_measured_attitude_def
  by (simp add: att_upto_first att_upto_recurrence)

theorem get_measured_attitude_recurrence_witness:
  "get_measured_attitude turn_reader ! 0 = rot_z90 \<and>
   (1::nat) \<le> 1 \<and> 1 < length (get_timestamps turn_reader) \<and>
   get_measured_attitude turn_reader ! 1 =
     rot_mul (get_measured_attitude turn_reader ! (1 - 1)) (snd (transformation turn_reader 1))"
  using get_measured_attitude_recurrence[of turn_reader]
  by (simp add: turn_reader_def)

section \<open>The two attitude sequences\<close>

text \<open>
  Claim C10: for every reader, the list \<^verbatim>\<open>measured_att\<close> that
  \<^verbatim>\<open>get_measured_positions\<close> builds beside the positions is, element for element,
  the list \<^verbatim>\<open>get_measured_attitude\<close> returns.
\<close>

theorem get_measured_positions_att_eq:
  "get_measured_positions_att rd = get_measured_attitude rd"
  by (simp add: get_measured_positions_att_def get_measured_attitude_def pos_att_upto)

section \<open>The translation to the car position\<close>

lemma car_pos_zip:
  "length ps \<le> length atts \<Longrightarrow>
   car_pos ps atts tr =
     Inr (map2 (\<lambda>p a. rot_apply a (vsub (rot_apply a p False) tr) True) ps atts)"
  by (induction ps atts tr rule: car_pos.induct) (simp_all add: translate1_def)

text \<open>
  Claim C5: for one position and one rotation, and for sequences of positions and
  rotations of the same length (a rotation object holding several rotations, or an array
  of rotation objects), \<^verbatim>\<open>rbd_translate\<close> returns, for each pair, the position
  rotated by the attitude, minus the offset, rotated back with the inverse flag:
  \<^verbatim>\<open>att.apply(att.apply(pos) - trans, True)\<close>.
\<close>

theorem rbd_translate_three_steps:
  "rbd_translate (Single p) (SingleRot a) tr =
     Inr (Single (rot_apply a (vsub (rot_apply a p False) tr) True)) \<and>
   (length ps = length atts \<longrightarrow>
      rbd_translate (Batch ps) (MultiRot atts) tr =
        Inr (Batch (map2 (\<lambda>p a. rot_apply a (vsub (rot_apply a p False) tr) True) ps atts)) \<and>
      rbd_translate (Batch ps) (RotArray atts) tr =
        Inr (Batch (map2 (\<lambda>p a. rot_apply a (vsub (rot_apply a p False) tr) True) ps atts)))"
  by (simp add: translate1_def car_pos_zip)

theorem rbd_translate_three_steps_witness:
  "rbd_translate (Single (1, 2, 3)) (SingleRot rot_z90) (1, 0, 0) = Inr (Single (1, 3, 3)) \<and>
   length [(1, 2, 3) :: vec3] = length [rot_z90] \<and>
   rbd_translate (Batch [(1, 2, 3)]) (MultiRot [rot_z90]) (1, 0, 0) = Inr (Batch [(1, 3, 3)]) \<and>
   rbd_translate (Batch [(1, 2, 3)]) (RotArray [rot_z90]) (1, 0, 0) = Inr (Batch [(1, 3, 3)])"
  using rbd_translate_three_steps[of "(1, 2, 3)" rot_z90 "(1, 0, 0)" "[(1, 2, 3)]" "[rot_z90]"]
  by (simp add: rot_apply_def rot_z90_def)

subsection \<open>A zero offset\<close>










section \<open>The rotation from ECEF to ENU\<close>

lemma sin_colat: "sin (pi / 2 - x) = cos (x::real)"
  by (simp add: sin_diff)

lemma cos_colat: "cos (pi / 2 - x) = sin (x::real)"
  by (simp add: cos_diff)

text \<open>The rows of the matrix are the east, north and up directions.\<close>

lemma ecef2enu_dcm:
  "as_dcm (ecef2enu lat lon) =
     ((- sin lon, cos lon, 0),
      (- (sin lat * cos lon), - (sin lat * sin lon), cos lat),
      (cos lat * cos lon, cos lat * sin lon, sin lat))"
  by (simp add: ecef2enu_def from_dcm_def Let_def sin_colat cos_colat mult.commute)

lemma sin_cos_sq: "sin x * sin x + cos x * cos x = (1::real)"
  using sin_cos_squared_add[of x] by (simp add: power2_eq_square)

lemma north_up_zero:
  fixes sl cl sn cn :: real
  assumes "sn * sn + cn * cn = 1"
  shows "- (sl * cn * (cl * cn)) - sl * sn * (cl * sn) + cl * sl = 0"
proof -
  have "- (sl * cn * (cl * cn)) - sl * sn * (cl * sn) + cl * sl
          = cl * sl * (1 - (sn * sn + cn * cn))"
    by (simp add: algebra_simps)
  then show ?thesis by (simp add: assms)
qed

lemma up_up_one:
  fixes sl cl sn cn :: real
  assumes "sn * sn + cn * cn = 1" "sl * sl + cl * cl = 1"
  shows "cl * cn * (cl * cn) + cl * sn * (cl * sn) + sl * sl = 1"
proof -
  have "cl * cn * (cl * cn) + cl * sn * (cl * sn) + sl * sl
          = cl * cl * (sn * sn + cn * cn) + sl * sl"
    by (simp add: algebra_simps)
  then show ?thesis using assms by (simp add: add.commute)
qed

text \<open>
  Claim C7: for every latitude strictly between \<open>-\<pi>/2\<close> and \<open>\<pi>/2\<close> and every
  longitude, the rotation \<^verbatim>\<open>ecef2enu\<close> returns maps the local up direction
  \<open>(cos lat cos lon, cos lat sin lon, sin lat)\<close> to \<open>(0, 0, 1)\<close>.
\<close>

theorem ecef2enu_up:
  assumes "- (pi / 2) < lat" and "lat < pi / 2"
  shows "rot_apply (ecef2enu lat lon) (cos lat * cos lon, cos lat * sin lon, sin lat) False
           = (0, 0, 1)"
proof -
  have e: "- sin lon * (cos lat * cos lon) + cos lon * (cos lat * sin lon) = 0"
    by simp
  have n: "- (sin lat * cos lon * (cos lat * cos lon)) - sin lat * sin lon * (cos lat * sin lon)
             + cos lat * sin lat = 0"
    by (rule north_up_zero) (rule sin_cos_sq)
  have u: "cos lat * cos lon * (cos lat * cos lon) + cos lat * sin lon * (cos lat * sin lon)
             + sin lat * sin lat = 1"
    by (rule up_up_one) (rule sin_cos_sq)+
  have "mat_vec (as_dcm (ecef2enu lat lon)) (cos lat * cos lon, cos lat * sin lon, sin lat)
          = (0, 0, 1)"
    unfolding ecef2enu_dcm mat_vec.simps vdot.simps using e n u
    by (simp only: minus_mult_left add_0_right mult_zero_left diff_conv_add_uminus)
  then show ?thesis
    by (simp add: rot_apply_def)
qed

theorem ecef2enu_up_witness:
  "- (pi / 2) < (0::real) \<and> (0::real) < pi / 2 \<and>
   rot_apply (ecef2enu 0 0) (cos 0 * cos 0, cos 0 * sin 0, sin 0) False = (0, 0, 1)"
  using ecef2enu_up[of 0 0] by simp

section \<open>What deepcopy builds\<close>

lemma copy_post_refl: "in_copy h0 h m \<Longrightarrow> copy_post h0 h m h m"
  by (simp add: copy_post_def)

lemma copy_postD:
  assumes "copy_post h0 h m h' m'"
  shows "in_copy h0 h' m'" "length h \<le> length h'" "m \<subseteq>\<^sub>m m'"
    "\<And>z. z < length h \<Longrightarrow> h' ! z = h ! z"
    "\<And>z w. m z = None \<Longrightarrow> m' z = Some w \<Longrightarrow> length h \<le> w"
  using assms unfolding copy_post_def by blast+

lemma map_le_Some: "m \<subseteq>\<^sub>m m' \<Longrightarrow> m z = Some w \<Longrightarrow> m' z = Some w"
  by (metis domI map_le_def)

lemma copy_post_trans:
  assumes a: "copy_post h0 h m h1 m1" and b: "copy_post h0 h1 m1 h2 m2"
  shows "copy_post h0 h m h2 m2"
proof -
  have fresh: "length h \<le> w" if "m z = None" "m2 z = Some w" for z w
  proof (cases "m1 z")
    case None
    with that have "length h1 \<le> w" using copy_postD(5)[OF b] by blast
    with copy_postD(2)[OF a] show ?thesis by simp
  next
    case (Some w1)
    then have "m2 z = Some w1" using copy_postD(3)[OF b] by (rule map_le_Some[rotated])
    with that have "w1 = w" by simp
    with Some that show ?thesis using copy_postD(5)[OF a] by blast
  qed
  have "m \<subseteq>\<^sub>m m2" using copy_postD(3)[OF a] copy_postD(3)[OF b] by (rule map_le_trans)
  moreover have "\<forall>z < length h. h2 ! z = h ! z"
    using copy_postD(4)[OF a] copy_postD(4)[OF b] copy_postD(2)[OF a] by simp
  moreover have "length h \<le> length h2" using copy_postD(2)[OF a] copy_postD(2)[OF b] by simp
  moreover have "in_copy h0 h2 m2" using b by (simp add: copy_post_def)
  ultimately show ?thesis using fresh unfolding copy_post_def by blast
qed


lemma in_copyD:
  assumes "in_copy h0 h m"
  shows "length h0 \<le> length h" "take (length h0) h = h0"
    "\<And>x y. m x = Some y \<Longrightarrow> length h0 \<le> y \<and> y < length h"
    "\<And>x y. length h0 \<le> x \<Longrightarrow> x < length h \<Longrightarrow> y \<in> refs (h ! x) \<Longrightarrow> length h0 \<le> y \<and> y < length h"
  using assms unfolding in_copy_def by blast+

lemma in_copyI:
  assumes "length h0 \<le> length h" "take (length h0) h = h0"
    "\<And>x y. m x = Some y \<Longrightarrow> length h0 \<le> y \<and> y < length h"
    "\<And>x y. length h0 \<le> x \<Longrightarrow> x < length h \<Longrightarrow> y \<in> refs (h ! x) \<Longrightarrow> length h0 \<le> y \<and> y < length h"
  shows "in_copy h0 h m"
  using assms unfolding in_copy_def by blast

lemma copy_post_alloc:
  assumes i: "in_copy h0 h m" and c: "refs c = {}" and x: "m x = None"
  shows "copy_post h0 h m (h @ [c]) (m(x \<mapsto> length h))"
proof -
  note d = in_copyD[OF i]
  have ic: "in_copy h0 (h @ [c]) (m(x \<mapsto> length h))"
  proof (rule in_copyI)
    show "length h0 \<le> length (h @ [c])" using d(1) by simp
    have "take (length h0) (h @ [c]) = take (length h0) h" using d(1) by simp
    then show "take (length h0) (h @ [c]) = h0" by (simp only: d(2))
  next
    fix x' y assume a: "(m(x \<mapsto> length h)) x' = Some y"
    show "length h0 \<le> y \<and> y < length (h @ [c])"
    proof (cases "x' = x")
      case True
      with a have "y = length h" by simp
      then show ?thesis using d(1) by simp
    next
      case False
      with a have "m x' = Some y" by simp
      from d(3)[OF this] show ?thesis by simp
    qed
  next
    fix x' y assume x': "length h0 \<le> x'" "x' < length (h @ [c])" and y: "y \<in> refs ((h @ [c]) ! x')"
    show "length h0 \<le> y \<and> y < length (h @ [c])"
    proof (cases "x' < length h")
      case True
      then have "y \<in> refs (h ! x')" using y by (simp add: nth_append)
      from d(4)[OF x'(1) True this] show ?thesis by simp
    next
      case False
      with x'(2) have "x' = length h" by simp
      then have "(h @ [c]) ! x' = c" by simp
      with y c show ?thesis by simp
    qed
  qed
  show ?thesis
    unfolding copy_post_def
  proof (intro conjI allI impI)
    show "in_copy h0 (h @ [c]) (m(x \<mapsto> length h))" by (rule ic)
    show "length h \<le> length (h @ [c])" by simp
    show "m \<subseteq>\<^sub>m m(x \<mapsto> length h)" using x by (auto simp: map_le_def)
  next
    fix z assume "z < length h"
    then show "(h @ [c]) ! z = h ! z" by (simp add: nth_append)
  next
    fix z w assume "m z = None" "(m(x \<mapsto> length h)) z = Some w"
    then show "length h \<le> w" by (cases "z = x") simp_all
  qed
qed

text \<open>Storing the copied attributes in the copy that was entered in the memo.\<close>

lemma copy_post_object:
  assumes i: "in_copy h0 h m" and x: "m x = None"
    and p: "copy_post h0 (h @ [Obj []]) (m(x \<mapsto> length h)) h2 m2"
    and fs: "\<And>y. y \<in> snd ` set fs' \<Longrightarrow> \<exists>x'. m2 x' = Some y"
  shows "copy_post h0 h m (h2[length h := Obj fs']) m2"
proof -
  note d = in_copyD[OF i]
  note q = copy_postD[OF p]
  note d2 = in_copyD[OF q(1)]
  have a: "copy_post h0 h m (h @ [Obj []]) (m(x \<mapsto> length h))"
    by (rule copy_post_alloc[OF i _ x]) simp
  have b: "copy_post h0 h m h2 m2" using a p by (rule copy_post_trans)
  note r = copy_postD[OF b]
  have len: "length h < length h2" using q(2) by simp
  have ic: "in_copy h0 (h2[length h := Obj fs']) m2"
  proof (rule in_copyI)
    show "length h0 \<le> length (h2[length h := Obj fs'])" using d2(1) by simp
    have "take (length h0) (h2[length h := Obj fs']) = take (length h0) h2" using d(1) by simp
    then show "take (length h0) (h2[length h := Obj fs']) = h0" by (simp only: d2(2))
  next
    fix x' y assume "m2 x' = Some y"
    then show "length h0 \<le> y \<and> y < length (h2[length h := Obj fs'])" using d2(3)[of x' y] by simp
  next
    fix x' y assume x': "length h0 \<le> x'" "x' < length (h2[length h := Obj fs'])"
      and y: "y \<in> refs ((h2[length h := Obj fs']) ! x')"
    show "length h0 \<le> y \<and> y < length (h2[length h := Obj fs'])"
    proof (cases "x' = length h")
      case True
      with y len have "y \<in> snd ` set fs'" by simp
      then obtain x'' where "m2 x'' = Some y" using fs by blast
      then show ?thesis using d2(3)[of x'' y] by simp
    next
      case False
      with y have "y \<in> refs (h2 ! x')" by simp
      then show ?thesis using d2(4)[of x' y] x' by simp
    qed
  qed
  have "\<forall>z < length h. (h2[length h := Obj fs']) ! z = h ! z" using r(4) by simp
  then show ?thesis using ic r(2) r(3) r(5) unfolding copy_post_def by simp
qed

lemma deepcopy_post:
  "deepcopy n x hm = Inr (y, h', m') \<Longrightarrow> in_copy h0 (fst hm) (snd hm) \<Longrightarrow>
     copy_post h0 (fst hm) (snd hm) h' m' \<and> m' x = Some y"
  "deepcopy_fields n fs hm = Inr (fs', h', m') \<Longrightarrow> in_copy h0 (fst hm) (snd hm) \<Longrightarrow>
     copy_post h0 (fst hm) (snd hm) h' m' \<and>
     list_all2 (\<lambda>fx fy. fst fy = fst fx \<and> m' (snd fx) = Some (snd fy)) fs fs'"
proof (induction n x hm and n fs hm arbitrary: y h' m' and fs' h' m'
    rule: deepcopy_deepcopy_fields.induct)
  case (1 x h m)
  then show ?case by simp
next
  case (2 n x h m)
  note i = "2.prems"(2)[unfolded fst_conv snd_conv]
  show ?case
  proof (cases "m x")
    case (Some y0)
    with "2.prems"(1) have "y = y0" "h' = h" "m' = m" by simp_all
    with Some i show ?thesis by (simp add: copy_post_refl)
  next
    case None
    show ?thesis
    proof (cases "x < length h")
      case False
      with None "2.prems"(1) show ?thesis by simp
    next
      case True
      show ?thesis
      proof (cases "h ! x")
        case (Arr xs)
        with None True "2.prems"(1)
        have e: "y = length h" "h' = h @ [Arr xs]" "m' = m(x \<mapsto> length h)" by auto
        have "copy_post h0 h m (h @ [Arr xs]) (m(x \<mapsto> length h))"
          by (rule copy_post_alloc[OF i _ None]) simp
        moreover have "(m(x \<mapsto> length h)) x = Some (length h)" by simp
        ultimately show ?thesis unfolding e fst_conv snd_conv by (rule conjI)
      next
        case (Obj fs)
        with None True "2.prems"(1) obtain fs2 h2 m2 where
          f: "deepcopy_fields n fs (h @ [Obj []], m(x \<mapsto> length h)) = Inr (fs2, h2, m2)"
          and e: "y = length h" "h' = h2[length h := Obj fs2]" "m' = m2"
          by (auto split: sum.splits)
        have a: "copy_post h0 h m (h @ [Obj []]) (m(x \<mapsto> length h))"
          by (rule copy_post_alloc[OF i _ None]) simp
        have ih: "copy_post h0 (h @ [Obj []]) (m(x \<mapsto> length h)) h2 m2 \<and>
            list_all2 (\<lambda>fx fy. fst fy = fst fx \<and> m2 (snd fx) = Some (snd fy)) fs fs2"
          by (rule "2.IH"[OF None True Obj f, unfolded fst_conv snd_conv, OF copy_postD(1)[OF a]])
        have mem: "\<exists>x'. m2 x' = Some y'" if "y' \<in> snd ` set fs2" for y'
        proof -
          from that obtain j where j: "j < length fs2" "y' = snd (fs2 ! j)"
            by (auto simp: in_set_conv_nth)
          with ih have "m2 (snd (fs ! j)) = Some y'"
            by (auto simp: list_all2_conv_all_nth)
          then show ?thesis by blast
        qed
        have "copy_post h0 h m (h2[length h := Obj fs2]) m2"
          by (rule copy_post_object[OF i None conjunct1[OF ih] mem])
        moreover have "m2 x = Some (length h)"
          by (rule map_le_Some[OF copy_postD(3)[OF conjunct1[OF ih]]]) simp
        ultimately show ?thesis using e by simp
      qed
    qed
  qed
next
  case (3 n h m)
  then show ?case by (simp add: copy_post_refl)
next
  case (4 n f x fs h m)
  from "4.prems"(1) obtain y1 h1 m1 fs2 where
    a: "deepcopy n x (h, m) = Inr (y1, h1, m1)"
    and b: "deepcopy_fields n fs (h1, m1) = Inr (fs2, h', m')"
    and e: "fs' = (f, y1) # fs2"
    by (auto split: sum.splits)
  have pa: "copy_post h0 h m h1 m1 \<and> m1 x = Some y1"
    by (rule "4.IH"(1)[OF a, unfolded fst_conv snd_conv, OF "4.prems"(2)[unfolded fst_conv snd_conv]])
  have pb: "copy_post h0 h1 m1 h' m' \<and>
      list_all2 (\<lambda>fx fy. fst fy = fst fx \<and> m' (snd fx) = Some (snd fy)) fs fs2"
    by (rule "4.IH"(2)[OF a refl refl b, unfolded fst_conv snd_conv, OF copy_postD(1)[OF conjunct1[OF pa]]])
  have "copy_post h0 h m h' m'"
    using conjunct1[OF pa] conjunct1[OF pb] by (rule copy_post_trans)
  moreover have "m' x = Some y1"
    using copy_postD(3)[OF conjunct1[OF pb]] conjunct2[OF pa] by (rule map_le_Some)
  ultimately show ?case using e pb by simp
qed

subsection \<open>deepcopy returns\<close>

lemma wf_heapD: "wf_heap h \<Longrightarrow> x < length h \<Longrightarrow> y \<in> refs (h ! x) \<Longrightarrow> y < length h"
  unfolding wf_heap_def list_all_length by blast

lemma wf_heapI: "(\<And>x y. x < length h \<Longrightarrow> y \<in> refs (h ! x) \<Longrightarrow> y < length h) \<Longrightarrow> wf_heap h"
  unfolding wf_heap_def list_all_length by blast

lemma todo_mono: "m \<subseteq>\<^sub>m m' \<Longrightarrow> todo h0 m' \<le> todo h0 m"
proof -
  assume le: "m \<subseteq>\<^sub>m m'"
  have "{z. z < length h0 \<and> m' z = None} \<subseteq> {z. z < length h0 \<and> m z = None}"
  proof
    fix z assume "z \<in> {z. z < length h0 \<and> m' z = None}"
    then have z: "z < length h0" "m' z = None" by simp_all
    have "m z = None"
    proof (cases "m z")
      case None then show ?thesis .
    next
      case (Some w)
      with le have "m' z = Some w" by (rule map_le_Some)
      with z show ?thesis by simp
    qed
    with z show "z \<in> {z. z < length h0 \<and> m z = None}" by simp
  qed
  then show ?thesis unfolding todo_def by (intro card_mono) simp_all
qed

lemma todo_upd:
  assumes "x < length h0" "m x = None"
  shows "todo h0 (m(x \<mapsto> y)) < todo h0 m"
proof -
  have "{z. z < length h0 \<and> (m(x \<mapsto> y)) z = None} \<subset> {z. z < length h0 \<and> m z = None}"
    using assms by (auto split: if_splits)
  then show ?thesis unfolding todo_def by (intro psubset_card_mono) simp_all
qed

lemma in_copy_nth: "in_copy h0 h m \<Longrightarrow> x < length h0 \<Longrightarrow> h ! x = h0 ! x"
proof -
  assume i: "in_copy h0 h m" and x: "x < length h0"
  have "take (length h0) h ! x = h ! x" using x by simp
  then show ?thesis by (simp only: in_copyD(2)[OF i])
qed

lemma deepcopy_returns:
  "wf_heap h0 \<Longrightarrow> in_copy h0 (fst hm) (snd hm) \<Longrightarrow> x < length h0 \<Longrightarrow>
     todo h0 (snd hm) < n \<Longrightarrow> \<exists>r. deepcopy n x hm = Inr r"
  "wf_heap h0 \<Longrightarrow> in_copy h0 (fst hm) (snd hm) \<Longrightarrow> (\<forall>y \<in> snd ` set fs. y < length h0) \<Longrightarrow>
     todo h0 (snd hm) < n \<Longrightarrow> \<exists>r. deepcopy_fields n fs hm = Inr r"
proof (induction n x hm and n fs hm rule: deepcopy_deepcopy_fields.induct)
  case (1 x h m)
  then show ?case by simp
next
  case (2 n x h m)
  note wf = "2.prems"(1)
  note i = "2.prems"(2)[unfolded fst_conv snd_conv]
  note x = "2.prems"(3)
  note t = "2.prems"(4)[unfolded snd_conv]
  show ?case
  proof (cases "m x")
    case (Some y)
    then show ?thesis by simp
  next
    case None
    have xh: "x < length h" using x in_copyD(1)[OF i] by simp
    have hx: "h ! x = h0 ! x" using i x by (rule in_copy_nth)
    show ?thesis
    proof (cases "h ! x")
      case (Arr xs)
      with None xh show ?thesis by simp
    next
      case (Obj fs)
      have a: "copy_post h0 h m (h @ [Obj []]) (m(x \<mapsto> length h))"
        by (rule copy_post_alloc[OF i _ None]) simp
      have fs: "\<forall>y \<in> snd ` set fs. y < length h0"
      proof
        fix y assume "y \<in> snd ` set fs"
        then have "y \<in> refs (h0 ! x)" using Obj hx by simp
        with wf x show "y < length h0" by (rule wf_heapD)
      qed
      have t1: "todo h0 (m(x \<mapsto> length h)) < n"
        using todo_upd[of x h0 m "length h"] x None t by simp
      have "\<exists>r. deepcopy_fields n fs (h @ [Obj []], m(x \<mapsto> length h)) = Inr r"
        by (rule "2.IH"[OF None xh Obj wf, unfolded fst_conv snd_conv, OF copy_postD(1)[OF a] fs t1])
      then obtain fs' h' m' where
        "deepcopy_fields n fs (h @ [Obj []], m(x \<mapsto> length h)) = Inr (fs', h', m')"
        by (metis prod_cases3)
      with None xh Obj show ?thesis by simp
    qed
  qed
next
  case (3 n h m)
  then show ?case by simp
next
  case (4 n f x fs h m)
  note wf = "4.prems"(1)
  note i = "4.prems"(2)[unfolded fst_conv snd_conv]
  note t = "4.prems"(4)[unfolded snd_conv]
  have x: "x < length h0" using "4.prems"(3) by simp
  have fs: "\<forall>y \<in> snd ` set fs. y < length h0" using "4.prems"(3) by simp
  have "\<exists>r. deepcopy n x (h, m) = Inr r"
    by (rule "4.IH"(1)[OF wf, unfolded fst_conv snd_conv, OF i x t])
  then obtain y h1 m1 where a: "deepcopy n x (h, m) = Inr (y, h1, m1)"
    by (metis prod_cases3)
  have p: "copy_post h0 h m h1 m1"
    using deepcopy_post(1)[OF a, of h0] i by simp
  have t1: "todo h0 m1 < n"
    using todo_mono[OF copy_postD(3)[OF p], of h0] t by simp
  have "\<exists>r. deepcopy_fields n fs (h1, m1) = Inr r"
    by (rule "4.IH"(2)[OF a refl refl wf, unfolded fst_conv snd_conv, OF copy_postD(1)[OF p] fs t1])
  then obtain fs' h' m' where "deepcopy_fields n fs (h1, m1) = Inr (fs', h', m')"
    by (metis prod_cases3)
  with a show ?case by simp
qed

lemma in_copy_start: "in_copy h h Map.empty"
  by (rule in_copyI) simp_all

lemma todo_start: "todo h Map.empty = length h"
  by (simp add: todo_def)

lemma recorder_record_returns:
  assumes "wf_heap (heap s)" "kalman s < length (heap s)" "length (heap s) < depth"
  shows "\<exists>s'. recorder_record depth ts s = Inr s'"
proof -
  have "\<exists>r. deepcopy depth (kalman s) (heap s, Map.empty) = Inr r"
    using deepcopy_returns(1)[OF assms(1), of "(heap s, Map.empty)" "kalman s" depth]
      in_copy_start[of "heap s"] assms(2) assms(3) by (simp add: todo_start)
  then obtain y h' m' where "deepcopy depth (kalman s) (heap s, Map.empty) = Inr (y, h', m')"
    by (metis prod_cases3)
  then show ?thesis by (simp add: recorder_record_def)
qed

subsection \<open>Reachable cells\<close>

lemma unchangedD:
  assumes "unchanged h h' A" "x \<in> A"
  shows "x < length h" "x < length h'" "h' ! x = h ! x"
  using assms unfolding unchanged_def by blast+

lemma reach_closed:
  assumes r: "r \<in> A" and cl: "\<And>x y. x \<in> A \<Longrightarrow> x < length h \<Longrightarrow> y \<in> refs (h ! x) \<Longrightarrow> y \<in> A"
  shows "reach h r \<subseteq> A"
proof
  fix y assume "y \<in> reach h r"
  then show "y \<in> A"
  proof (induction rule: reach.induct)
    case root
    show ?case by (rule r)
  next
    case (step x y)
    then show ?case using cl by blast
  qed
qed

lemma reach_lt:
  assumes wf: "wf_heap h" and r: "r < length h" and y: "y \<in> reach h r"
  shows "y < length h"
proof -
  have "reach h r \<subseteq> {x. x < length h}"
  proof (rule reach_closed)
    show "r \<in> {x. x < length h}" using r by simp
  next
    fix x y assume "x \<in> {x. x < length h}" "x < length h" "y \<in> refs (h ! x)"
    then show "y \<in> {x. x < length h}" using wf_heapD[OF wf] by simp
  qed
  with y show ?thesis by blast
qed

lemma reach_trans:
  assumes "y \<in> reach h x" "x \<in> reach h r"
  shows "y \<in> reach h r"
  using assms
proof (induction rule: reach.induct)
  case root
  then show ?case .
next
  case (step x' y')
  then show ?case by (blast intro: reach.step)
qed

lemma reach_unchanged_sub:
  assumes u: "unchanged h h' (reach h r)"
  shows "reach h' r \<subseteq> reach h r"
proof (rule reach_closed)
  show "r \<in> reach h r" by (rule reach.root)
next
  fix x y assume x: "x \<in> reach h r" and "x < length h'" and y: "y \<in> refs (h' ! x)"
  from unchangedD[OF u x] y have "x < length h" "y \<in> refs (h ! x)" by simp_all
  with x show "y \<in> reach h r" by (blast intro: reach.step)
qed

lemma reach_unchanged:
  assumes u: "unchanged h h' (reach h r)"
  shows "reach h' r = reach h r"
proof
  show "reach h' r \<subseteq> reach h r" using u by (rule reach_unchanged_sub)
  show "reach h r \<subseteq> reach h' r"
  proof
    fix y assume "y \<in> reach h r"
    then show "y \<in> reach h' r"
    proof (induction rule: reach.induct)
      case root
      show ?case by (rule reach.root)
    next
      case (step x y)
      from unchangedD[OF u step.hyps(1)] step.hyps(3)
      have "x < length h'" "y \<in> refs (h' ! x)" by simp_all
      with step.IH show ?case by (blast intro: reach.step)
    qed
  qed
qed

lemma unchanged_sub: "unchanged h h' A \<Longrightarrow> B \<subseteq> A \<Longrightarrow> unchanged h h' B"
  unfolding unchanged_def by blast

lemma unchanged_trans:
  assumes "unchanged h h1 A" "unchanged h1 h2 A"
  shows "unchanged h h2 A"
  using assms unfolding unchanged_def by auto

lemma reach_step_sub:
  assumes "x \<in> reach h r" "x < length h" "y \<in> refs (h ! x)"
  shows "reach h y \<subseteq> reach h r"
proof
  fix z assume "z \<in> reach h y"
  moreover have "y \<in> reach h r" using assms by (rule reach.step)
  ultimately show "z \<in> reach h r" by (rule reach_trans)
qed

lemma value_at_unchanged:
  "unchanged h h' (reach h r) \<Longrightarrow> value_at n h' r = value_at n h r"
proof (induction n arbitrary: r)
  case 0
  show ?case by simp
next
  case (Suc n)
  note u = Suc.prems
  have r: "r \<in> reach h r" by (rule reach.root)
  note d = unchangedD[OF u r]
  show ?case
  proof (cases "h ! r")
    case (Arr xs)
    with d show ?thesis by simp
  next
    case (Obj fs)
    have "value_at n h' y = value_at n h y" if "y \<in> snd ` set fs" for y
    proof -
      have "y \<in> refs (h ! r)" using that by (simp add: Obj)
      with r d(1) have "reach h y \<subseteq> reach h r"
        by (rule reach_step_sub)
      with u have "unchanged h h' (reach h y)" by (rule unchanged_sub)
      then show ?thesis by (rule Suc.IH)
    qed
    then have "map (\<lambda>(f, y). (f, value_at n h' y)) fs = map (\<lambda>(f, y). (f, value_at n h y)) fs"
      by (intro map_cong) force+
    with d Obj show ?thesis by simp
  qed
qed

lemma getattr_unchanged:
  "unchanged h h' (reach h r) \<Longrightarrow> getattr h' r name = getattr h r name"
  using unchangedD[OF _ reach.root[of r h]] by (simp add: getattr_def)

lemma position_of_unchanged:
  assumes u: "unchanged h h' (reach h r)"
  shows "position_of h' r = position_of h r"
proof (cases "getattr h r ''position''")
  case (Inl e)
  then show ?thesis using getattr_unchanged[OF u] by (simp add: position_of_def)
next
  case (Inr p)
  have r: "r \<in> reach h r" by (rule reach.root)
  note d = unchangedD[OF u r]
  from Inr obtain fs where fs: "h ! r = Obj fs" "map_of fs ''position'' = Some p"
    by (auto simp: getattr_def split: if_splits cell.splits option.splits)
  then have "p \<in> refs (h ! r)" by (force dest: map_of_SomeD)
  with r d(1) have p: "p \<in> reach h r" by (rule reach.step)
  note dp = unchangedD[OF u p]
  show ?thesis using Inr getattr_unchanged[OF u, of "''position''"] dp
    by (simp add: position_of_def)
qed

subsection \<open>deepcopy copies\<close>

lemma copied_stable:
  assumes c: "copied h0 h m x y" and p: "copy_post h0 h m h' m'"
  shows "copied h0 h' m' x y"
proof -
  from c have x: "x < length h0" and y: "y < length h" by (simp_all add: copied_def)
  note q = copy_postD[OF p]
  have hy: "h' ! y = h ! y" using q(4)[OF y] .
  have yl: "y < length h'" using y q(2) by simp
  show ?thesis
  proof (cases "h0 ! x")
    case (Arr xs)
    with c x yl hy show ?thesis by (simp add: copied_def)
  next
    case (Obj fs)
    with c obtain fs' where fs': "h ! y = Obj fs'"
      "list_all2 (\<lambda>fx fy. fst fy = fst fx \<and> m (snd fx) = Some (snd fy)) fs fs'"
      by (auto simp: copied_def)
    from fs'(2) have "list_all2 (\<lambda>fx fy. fst fy = fst fx \<and> m' (snd fx) = Some (snd fy)) fs fs'"
      by (rule list_all2_mono) (auto intro: map_le_Some[OF q(3)])
    with Obj x yl hy fs'(1) show ?thesis by (simp add: copied_def)
  qed
qed

lemma copied_cong:
  "copied h0 h m z w \<Longrightarrow> h' ! w = h ! w \<Longrightarrow> length h' = length h \<Longrightarrow> copied h0 h' m z w"
  unfolding copied_def by (simp split: cell.splits)

lemma deepcopy_copied:
  "deepcopy n x hm = Inr (y, h', m') \<Longrightarrow> in_copy h0 (fst hm) (snd hm) \<Longrightarrow> x < length h0 \<Longrightarrow>
     wf_heap h0 \<Longrightarrow>
     (\<forall>z w. snd hm z = None \<longrightarrow> m' z = Some w \<longrightarrow> copied h0 h' m' z w)"
  "deepcopy_fields n fs hm = Inr (fs', h', m') \<Longrightarrow> in_copy h0 (fst hm) (snd hm) \<Longrightarrow>
     (\<forall>y \<in> snd ` set fs. y < length h0) \<Longrightarrow> wf_heap h0 \<Longrightarrow>
     (\<forall>z w. snd hm z = None \<longrightarrow> m' z = Some w \<longrightarrow> copied h0 h' m' z w)"
proof (induction n x hm and n fs hm arbitrary: y h' m' and fs' h' m'
    rule: deepcopy_deepcopy_fields.induct)
  case (1 x h m)
  then show ?case by simp
next
  case (2 n x h m)
  note i = "2.prems"(2)[unfolded fst_conv snd_conv]
  note x = "2.prems"(3)
  note wf = "2.prems"(4)
  have xh: "x < length h" using x in_copyD(1)[OF i] by simp
  have hx: "h ! x = h0 ! x" using i x by (rule in_copy_nth)
  show ?case
  proof (cases "m x")
    case (Some y0)
    with "2.prems"(1) have "m' = m" by simp
    then show ?thesis by simp
  next
    case None
    show ?thesis
    proof (cases "h ! x")
      case (Arr xs)
      with None xh "2.prems"(1)
      have e: "y = length h" "h' = h @ [Arr xs]" "m' = m(x \<mapsto> length h)" by auto
      have "copied h0 h' m' z w" if "m z = None" "m' z = Some w" for z w
      proof -
        from that e have zw: "z = x" "w = length h" by (auto split: if_splits)
        have h0x: "h0 ! x = Arr xs" using hx Arr by simp
        show ?thesis unfolding copied_def zw e using x by (simp add: h0x)
      qed
      then show ?thesis by simp
    next
      case (Obj fs)
      with None xh "2.prems"(1) obtain fs2 h2 m2 where
        f: "deepcopy_fields n fs (h @ [Obj []], m(x \<mapsto> length h)) = Inr (fs2, h2, m2)"
        and e: "y = length h" "h' = h2[length h := Obj fs2]" "m' = m2"
        by (auto split: sum.splits)
      have a: "copy_post h0 h m (h @ [Obj []]) (m(x \<mapsto> length h))"
        by (rule copy_post_alloc[OF i _ None]) simp
      note i1 = copy_postD(1)[OF a]
      have fs: "\<forall>y \<in> snd ` set fs. y < length h0"
      proof
        fix y assume "y \<in> snd ` set fs"
        then have "y \<in> refs (h0 ! x)" using Obj hx by simp
        with wf x show "y < length h0" by (rule wf_heapD)
      qed
      note post = deepcopy_post(2)[OF f, unfolded fst_conv snd_conv, OF i1]
      note q = copy_postD[OF conjunct1[OF post]]
      have ih: "\<forall>z w. (m(x \<mapsto> length h)) z = None \<longrightarrow> m2 z = Some w \<longrightarrow> copied h0 h2 m2 z w"
        by (rule "2.IH"[OF None xh Obj f, unfolded fst_conv snd_conv, OF i1 fs wf])
      have mx: "m2 x = Some (length h)"
        by (rule map_le_Some[OF q(3)]) simp
      have len: "length h < length h2" using q(2) by simp
      have "copied h0 h' m' z w" if z: "m z = None" "m' z = Some w" for z w
      proof (cases "z = x")
        case True
        with z e mx have w: "w = length h" by simp
        have hw: "h' ! w = Obj fs2" using e w len by simp
        have h0x: "h0 ! x = Obj fs" using hx Obj by simp
        have wl: "w < length h'" using e w len by simp
        show ?thesis unfolding copied_def True
          using x wl hw conjunct2[OF post] e(3) by (simp add: h0x)
      next
        case False
        with z e have z1: "(m(x \<mapsto> length h)) z = None" "m2 z = Some w" by simp_all
        with ih have c: "copied h0 h2 m2 z w" by blast
        from q(5)[OF z1] have "w \<noteq> length h" by simp
        then have "h' ! w = h2 ! w" "length h' = length h2" using e by simp_all
        with c have "copied h0 h' m2 z w" by (rule copied_cong)
        then show ?thesis by (simp only: e(3))
      qed
      then show ?thesis by simp
    qed
  qed
next
  case (3 n h m)
  then show ?case by simp
next
  case (4 n f x fs h m)
  note i = "4.prems"(2)[unfolded fst_conv snd_conv]
  note wf = "4.prems"(4)
  have x: "x < length h0" using "4.prems"(3) by simp
  have fs: "\<forall>y \<in> snd ` set fs. y < length h0" using "4.prems"(3) by simp
  from "4.prems"(1) obtain y1 h1 m1 fs2 where
    a: "deepcopy n x (h, m) = Inr (y1, h1, m1)"
    and b: "deepcopy_fields n fs (h1, m1) = Inr (fs2, h', m')"
    by (auto split: sum.splits)
  note pa = deepcopy_post(1)[OF a, unfolded fst_conv snd_conv, OF i]
  note i1 = copy_postD(1)[OF conjunct1[OF pa]]
  note pb = deepcopy_post(2)[OF b, unfolded fst_conv snd_conv, OF i1]
  have iha: "\<forall>z w. m z = None \<longrightarrow> m1 z = Some w \<longrightarrow> copied h0 h1 m1 z w"
    by (rule "4.IH"(1)[OF a, unfolded fst_conv snd_conv, OF i x wf])
  have ihb: "\<forall>z w. m1 z = None \<longrightarrow> m' z = Some w \<longrightarrow> copied h0 h' m' z w"
    by (rule "4.IH"(2)[OF a refl refl b, unfolded fst_conv snd_conv, OF i1 fs wf])
  have "copied h0 h' m' z w" if z: "m z = None" "m' z = Some w" for z w
  proof (cases "m1 z")
    case None
    with ihb z show ?thesis by blast
  next
    case (Some w1)
    then have "m' z = Some w1" by (rule map_le_Some[OF copy_postD(3)[OF conjunct1[OF pb]]])
    with z have "w1 = w" by simp
    with Some z iha have "copied h0 h1 m1 z w" by blast
    then show ?thesis using conjunct1[OF pb] by (rule copied_stable)
  qed
  then show ?case by simp
qed

lemma copied_value:
  assumes all: "\<And>x y. m x = Some y \<Longrightarrow> copied h0 h m x y"
  shows "m x = Some y \<Longrightarrow> value_at n h y = value_at n h0 x"
proof (induction n arbitrary: x y)
  case 0
  show ?case by simp
next
  case (Suc n)
  from all[OF Suc.prems] have c: "copied h0 h m x y" .
  then have x: "x < length h0" and y: "y < length h" by (simp_all add: copied_def)
  show ?case
  proof (cases "h0 ! x")
    case (Arr xs)
    with c x y show ?thesis by (simp add: copied_def)
  next
    case (Obj fs)
    with c obtain fs' where fs': "h ! y = Obj fs'"
      "list_all2 (\<lambda>fx fy. fst fy = fst fx \<and> m (snd fx) = Some (snd fy)) fs fs'"
      by (auto simp: copied_def)
    from fs'(2) have "map (\<lambda>(f, y). (f, value_at n h y)) fs' = map (\<lambda>(f, x). (f, value_at n h0 x)) fs"
    proof (induction rule: list_all2_induct)
      case Nil
      show ?case by simp
    next
      case (Cons fx fs fy fs')
      then have "value_at n h (snd fy) = value_at n h0 (snd fx)" using Suc.IH by blast
      with Cons show ?case by (simp add: case_prod_unfold)
    qed
    with Obj fs'(1) x y show ?thesis by simp
  qed
qed

section \<open>Snapshots and the live estimator\<close>

lemma separatedD:
  assumes "separated s"
  shows "wf_heap (heap s)" "kalman s < length (heap s)"
    "\<And>ts x. (ts, x) \<in> set (kalman_record s) \<Longrightarrow> x < length (heap s)"
    "\<And>ts x. (ts, x) \<in> set (kalman_record s) \<Longrightarrow>
        reach (heap s) x \<inter> reach (heap s) (kalman s) = {}"
  using assms unfolding separated_def by blast+

lemma separatedI:
  assumes "wf_heap (heap s)" "kalman s < length (heap s)"
    "\<And>ts x. (ts, x) \<in> set (kalman_record s) \<Longrightarrow> x < length (heap s)"
    "\<And>ts x. (ts, x) \<in> set (kalman_record s) \<Longrightarrow>
        reach (heap s) x \<inter> reach (heap s) (kalman s) = {}"
  shows "separated s"
  using assms unfolding separated_def by blast

lemma dict_set_sub: "set (dict_set kvs k v) \<subseteq> insert (k, v) (set kvs)"
  by (induction kvs) (auto split: if_splits)

lemma dict_set_mem: "(k, v) \<in> set (dict_set kvs k v)"
  by (induction kvs) auto

lemma dict_set_key: "k \<in> fst ` set (dict_set kvs k v)"
  using dict_set_mem[of k v kvs] by force

lemma recorder_record_separated:
  assumes sep: "separated s" and rec: "recorder_record depth ts s = Inr s'"
  shows "separated s'" "kalman s' = kalman s"
    "\<And>x. x < length (heap s) \<Longrightarrow> heap s' ! x = heap s ! x"
    "length (heap s) \<le> length (heap s')"
    "ts \<in> fst ` set (kalman_record s')"
proof -
  define h where "h = heap s"
  note wf = separatedD(1)[OF sep, folded h_def]
  note k = separatedD(2)[OF sep, folded h_def]
  from rec obtain y h' m' where
    dc: "deepcopy depth (kalman s) (h, Map.empty) = Inr (y, h', m')"
    and s': "s' = s\<lparr>heap := h', kalman_record := dict_set (kalman_record s) ts y\<rparr>"
    by (auto simp: recorder_record_def h_def split: sum.splits)
  have p: "copy_post h h Map.empty h' m'" and my: "m' (kalman s) = Some y"
    using deepcopy_post(1)[OF dc, of h] in_copy_start[of h] by simp_all
  note i = copy_postD(1)[OF p]
  note len = copy_postD(2)[OF p]
  note frame = copy_postD(4)[OF p]
  have y: "length h \<le> y" "y < length h'" using in_copyD(3)[OF i my] by simp_all
  have wf': "wf_heap h'"
  proof (rule wf_heapI)
    fix x z assume x: "x < length h'" and z: "z \<in> refs (h' ! x)"
    show "z < length h'"
    proof (cases "x < length h")
      case True
      with z frame have "z \<in> refs (h ! x)" by simp
      with wf True have "z < length h" by (rule wf_heapD)
      with len show ?thesis by simp
    next
      case False
      then have "length h \<le> x" by simp
      from in_copyD(4)[OF i this x z] show ?thesis by simp
    qed
  qed
  have old: "unchanged h h' (reach h r)" if "r < length h" for r
    unfolding unchanged_def
  proof
    fix x assume "x \<in> reach h r"
    with wf that have "x < length h" by (rule reach_lt)
    with len frame show "x < length h \<and> x < length h' \<and> h' ! x = h ! x" by simp
  qed
  have old_reach: "reach h' r = reach h r" if "r < length h" for r
    using old[OF that] by (rule reach_unchanged)
  have old_lt: "reach h r \<subseteq> {x. x < length h}" if "r < length h" for r
    using reach_lt[OF wf that] by blast
  have new: "reach h' y \<subseteq> {x. length h \<le> x}"
  proof (rule reach_closed)
    show "y \<in> {x. length h \<le> x}" using y by simp
  next
    fix x z assume "x \<in> {x. length h \<le> x}" "x < length h'" "z \<in> refs (h' ! x)"
    then show "z \<in> {x. length h \<le> x}" using in_copyD(4)[OF i, of x z] by simp
  qed
  show "separated s'"
  proof (rule separatedI)
    show "wf_heap (heap s')" using wf' s' by simp
    show "kalman s' < length (heap s')" using k len s' by simp
  next
    fix t x assume "(t, x) \<in> set (kalman_record s')"
    then have "(t, x) \<in> insert (ts, y) (set (kalman_record s))"
      using dict_set_sub[of "kalman_record s" ts y] s' by auto
    then consider "x = y" | "(t, x) \<in> set (kalman_record s)" by auto
    then have "x < length h' \<and> reach h' x \<inter> reach h' (kalman s) = {}"
    proof cases
      case 1
      have "reach h' (kalman s) \<subseteq> {x. x < length h}"
        using old_reach[OF k] old_lt[OF k] by simp
      with new have "reach h' y \<inter> reach h' (kalman s) = {}" by fastforce
      with 1 y show ?thesis by simp
    next
      case 2
      note xl = separatedD(3)[OF sep 2, folded h_def]
      have "reach h x \<inter> reach h (kalman s) = {}"
        using separatedD(4)[OF sep 2] by (simp add: h_def)
      with xl len show ?thesis by (simp add: old_reach[OF xl] old_reach[OF k])
    qed
    then show "x < length (heap s')"
      and "reach (heap s') x \<inter> reach (heap s') (kalman s') = {}"
      using s' by simp_all
  qed
  show "kalman s' = kalman s" using s' by simp
  show "\<And>x. x < length (heap s) \<Longrightarrow> heap s' ! x = heap s ! x"
    using frame s' by (simp add: h_def)
  show "length (heap s) \<le> length (heap s')" using len s' by (simp add: h_def)
  show "ts \<in> fst ` set (kalman_record s')" using dict_set_key[of ts "kalman_record s" y] s' by simp
qed

lemma map_of_dict_set: "map_of (dict_set kvs k v) k = Some v"
  by (induction kvs) auto

lemma recorder_record_copy:
  assumes sep: "separated s" and rec: "recorder_record depth ts s = Inr s'"
  shows "\<exists>y. map_of (kalman_record s') ts = Some y \<and>
           (\<forall>n. value_at n (heap s') y = value_at n (heap s) (kalman s))"
proof -
  define h where "h = heap s"
  note wf = separatedD(1)[OF sep, folded h_def]
  note k = separatedD(2)[OF sep, folded h_def]
  from rec obtain y h' m' where
    dc: "deepcopy depth (kalman s) (h, Map.empty) = Inr (y, h', m')"
    and s': "s' = s\<lparr>heap := h', kalman_record := dict_set (kalman_record s) ts y\<rparr>"
    by (auto simp: recorder_record_def h_def split: sum.splits)
  have my: "m' (kalman s) = Some y"
    using deepcopy_post(1)[OF dc, of h] in_copy_start[of h] by simp
  from deepcopy_copied(1)[OF dc, unfolded fst_conv snd_conv, OF in_copy_start k wf]
  have all: "\<And>z w. m' z = Some w \<Longrightarrow> copied h h' m' z w" by simp
  have "value_at n h' y = value_at n h (kalman s)" for n
    using all my by (rule copied_value)
  then show ?thesis using s' by (simp add: map_of_dict_set h_def)
qed

lemma dict_set_values: "snd ` set (dict_set fs k v) \<subseteq> insert v (snd ` set fs)"
  using dict_set_sub[of fs k v] by force

text \<open>
  A mutation of the live estimator writes one live cell and may add cells; the cells of
  the snapshots are not among them.
\<close>

lemma own_event_separated:
  assumes sep: "separated s" and own: "own_event s ev" and st: "step depth ev s = Inr s'"
  shows "separated s'" "kalman_record s' = kalman_record s" "kalman s' = kalman s"
    "\<And>ts x. (ts, x) \<in> set (kalman_record s) \<Longrightarrow>
        unchanged (heap s) (heap s') (reach (heap s) x)"
proof -
  define h where "h = heap s"
  define L where "L = reach h (kalman s)"
  note wf = separatedD(1)[OF sep, folded h_def]
  note k = separatedD(2)[OF sep, folded h_def]
  have L_lt: "x < length h" if "x \<in> L" for x
    using reach_lt[OF wf k] that by (simp add: L_def)
  have L_step: "y \<in> L" if "x \<in> L" "y \<in> refs (h ! x)" for x y
    using that L_lt[OF that(1)] unfolding L_def by (blast intro: reach.step)
  have kL: "kalman s \<in> L" unfolding L_def by (rule reach.root)

  obtain x h' where
    xL: "x \<in> L" and s': "s' = s\<lparr>heap := h'\<rparr>" and len: "length h \<le> length h'"
    and others: "\<And>z. z < length h \<Longrightarrow> z \<noteq> x \<Longrightarrow> h' ! z = h ! z"
    and written: "\<And>z y. z < length h' \<Longrightarrow> (z = x \<or> length h \<le> z) \<Longrightarrow> y \<in> refs (h' ! z) \<Longrightarrow>
                     y \<in> L \<or> (length h \<le> y \<and> y < length h')"
  proof (cases ev)
    case (Record ts)
    with own show ?thesis by simp
  next
    case (Write x c)
    with own have xL: "x \<in> L" and c: "refs c \<subseteq> L" by (simp_all add: L_def h_def)
    from Write st L_lt[OF xL] have s': "s' = s\<lparr>heap := h[x := c]\<rparr>"
      by (simp add: h_def)
    show ?thesis
    proof (rule that[OF xL s'])
      show "length h \<le> length (h[x := c])" by simp
    next
      fix z assume "z < length h" "z \<noteq> x"
      then show "h[x := c] ! z = h ! z" by simp
    next
      fix z y assume z: "z < length (h[x := c])" "z = x \<or> length h \<le> z" and y: "y \<in> refs (h[x := c] ! z)"
      from z have "z = x" by auto
      with y L_lt[OF xL] c show "y \<in> L \<or> (length h \<le> y \<and> y < length (h[x := c]))" by auto
    qed
  next
    case (Attach x name c)
    with own have xL: "x \<in> L" and c: "refs c \<subseteq> L" by (simp_all add: L_def h_def)
    note xl = L_lt[OF xL]
    from Attach st xl obtain fs where fs: "h ! x = Obj fs"
      and s': "s' = s\<lparr>heap := (h @ [c])[x := Obj (dict_set fs name (length h))]\<rparr>"
      by (auto simp: h_def split: cell.splits)
    show ?thesis
    proof (rule that[OF xL s'])
      show "length h \<le> length ((h @ [c])[x := Obj (dict_set fs name (length h))])" by simp
    next
      fix z assume "z < length h" "z \<noteq> x"
      then show "(h @ [c])[x := Obj (dict_set fs name (length h))] ! z = h ! z"
        by (simp add: nth_append)
    next
      fix z y assume z: "z < length ((h @ [c])[x := Obj (dict_set fs name (length h))])"
        "z = x \<or> length h \<le> z"
        and y: "y \<in> refs ((h @ [c])[x := Obj (dict_set fs name (length h))] ! z)"
      show "y \<in> L \<or> (length h \<le> y \<and> y < length ((h @ [c])[x := Obj (dict_set fs name (length h))]))"
      proof (cases "z = x")
        case True
        with y xl have "y \<in> snd ` set (dict_set fs name (length h))" by simp
        with dict_set_values[of fs name "length h"] have "y = length h \<or> y \<in> snd ` set fs" by blast
        then show ?thesis
        proof
          assume "y = length h" then show ?thesis by simp
        next
          assume "y \<in> snd ` set fs"
          then have "y \<in> refs (h ! x)" by (simp add: fs)
          with xL have "y \<in> L" by (rule L_step)
          then show ?thesis by simp
        qed
      next
        case False
        with z have "z = length h" by simp
        with False xl y have "y \<in> refs c" by (simp add: nth_append)
        with c show ?thesis by blast
      qed
    qed
  qed

  have wf': "wf_heap h'"
  proof (rule wf_heapI)
    fix z y assume z: "z < length h'" and y: "y \<in> refs (h' ! z)"
    show "y < length h'"
    proof (cases "z = x \<or> length h \<le> z")
      case True
      from written[OF z True y] L_lt len show ?thesis by fastforce
    next
      case False
      then have "z < length h" "z \<noteq> x" by simp_all
      with y others have "y \<in> refs (h ! z)" by simp
      with wf \<open>z < length h\<close> have "y < length h" by (rule wf_heapD)
      with len show ?thesis by simp
    qed
  qed

  have live': "reach h' (kalman s) \<subseteq> L \<union> {z. length h \<le> z}"
  proof (rule reach_closed)
    show "kalman s \<in> L \<union> {z. length h \<le> z}" using kL by simp
  next
    fix z y assume z: "z \<in> L \<union> {z. length h \<le> z}" "z < length h'" and y: "y \<in> refs (h' ! z)"
    show "y \<in> L \<union> {z. length h \<le> z}"
    proof (cases "z = x \<or> length h \<le> z")
      case True
      from written[OF z(2) True y] show ?thesis by blast
    next
      case False
      then have zz: "z < length h" "z \<noteq> x" by simp_all
      with z have "z \<in> L" by auto
      moreover from y others[OF zz] have "y \<in> refs (h ! z)" by simp
      ultimately have "y \<in> L" by (rule L_step)
      then show ?thesis by simp
    qed
  qed

  have snap: "unchanged h h' (reach h b) \<and> reach h' b \<inter> reach h' (kalman s) = {} \<and> b < length h'"
    if b: "(t, b) \<in> set (kalman_record s)" for t b
  proof -
    note bl = separatedD(3)[OF sep b, folded h_def]
    have dis: "reach h b \<inter> L = {}" using separatedD(4)[OF sep b] by (simp add: h_def L_def)
    have u: "unchanged h h' (reach h b)"
      unfolding unchanged_def
    proof
      fix z assume z: "z \<in> reach h b"
      with wf bl have zl: "z < length h" by (rule reach_lt)
      from z dis xL have "z \<noteq> x" by blast
      with zl others len show "z < length h \<and> z < length h' \<and> h' ! z = h ! z" by simp
    qed
    have r: "reach h' b = reach h b" using u by (rule reach_unchanged)
    have "reach h b \<inter> {z. length h \<le> z} = {}"
      using reach_lt[OF wf bl] by fastforce
    with dis live' have "reach h b \<inter> reach h' (kalman s) = {}" by blast
    with u r bl len show ?thesis by simp
  qed

  show "separated s'"
  proof (rule separatedI)
    show "wf_heap (heap s')" using wf' s' by simp
    show "kalman s' < length (heap s')" using k len s' by simp
  next
    fix t b assume "(t, b) \<in> set (kalman_record s')"
    then have "(t, b) \<in> set (kalman_record s)" using s' by simp
    from snap[OF this] show "b < length (heap s')"
      and "reach (heap s') b \<inter> reach (heap s') (kalman s') = {}"
      using s' by simp_all
  qed
  show "kalman_record s' = kalman_record s" using s' by simp
  show "kalman s' = kalman s" using s' by simp
  show "\<And>ts x. (ts, x) \<in> set (kalman_record s) \<Longrightarrow>
        unchanged (heap s) (heap s') (reach (heap s) x)"
    using snap s' by (simp add: h_def)
qed

lemma own_run_separated:
  "separated s \<Longrightarrow> own_run depth evs s \<Longrightarrow> run depth evs s = Inr s' \<Longrightarrow>
   separated s' \<and> kalman_record s' = kalman_record s \<and>
   (\<forall>(t, x) \<in> set (kalman_record s). unchanged (heap s) (heap s') (reach (heap s) x))"
proof (induction evs arbitrary: s)
  case Nil
  then show ?case by (auto simp: unchanged_def intro: reach_lt separatedD)
next
  case (Cons ev evs)
  from Cons.prems(3) obtain s1 where
    st: "step depth ev s = Inr s1" and r: "run depth evs s1 = Inr s'"
    by (auto split: sum.splits)
  from Cons.prems(2) st have own: "own_event s ev" and own1: "own_run depth evs s1"
    by simp_all
  note a = own_event_separated[OF Cons.prems(1) own st]
  note ih = Cons.IH[OF a(1) own1 r]
  have "unchanged (heap s) (heap s') (reach (heap s) x)" if b: "(t, x) \<in> set (kalman_record s)" for t x
  proof -
    note u1 = a(4)[OF b]
    have "reach (heap s1) x = reach (heap s) x" using u1 by (rule reach_unchanged)
    moreover from ih b a(2) have "unchanged (heap s1) (heap s') (reach (heap s1) x)" by auto
    ultimately show ?thesis using u1 by (auto intro: unchanged_trans)
  qed
  with ih a(2) show ?case by auto
qed

lemma collect_cong:
  "(\<And>x. x \<in> set xs \<Longrightarrow> f x = g x) \<Longrightarrow> collect (map f xs) = collect (map g xs)"
  by (simp cong: map_cong)

lemma fresh_recorder_separated: "separated fresh_recorder"
  by (simp add: separated_def fresh_recorder_def estimator_heap_def wf_heap_def)

lemma recorded_once_run: "recorder_record 8 3 fresh_recorder = Inr recorded_once"
  by code_simp

lemma moved_on_run: "run 8 [Write 1 (Arr [1, 0, 0])] recorded_once = Inr moved_on"
  by code_simp

lemma moved_on_own: "own_run 8 [Write 1 (Arr [1, 0, 0])] recorded_once"
proof -
  have "1 \<in> reach (heap recorded_once) (kalman recorded_once)"
    by (rule reach.step[OF reach.root]) (simp_all add: recorded_once_def)
  then show ?thesis by (simp add: recorded_once_def)
qed

text \<open>
  Claim C9: in a recorder whose snapshots share no cell with the live estimator, and with
  recursion depth to spare, \<^verbatim>\<open>record(ts)\<close> returns and stores under \<open>ts\<close> a
  reference that shows, at every depth, what the live estimator showed when it was
  recorded. Whatever the estimator then does to its own cells (writing them in place,
  attaching new cells), the dictionary, what every stored snapshot shows at every depth,
  the result of \<^verbatim>\<open>get_positions\<close>, the references \<^verbatim>\<open>get_attitude\<close> returns and
  what they show stay as they were.
\<close>

theorem record_independent_copy:
  assumes "separated s" and "length (heap s) < depth"
  shows "\<exists>s1 y. recorder_record depth ts s = Inr s1 \<and>
           map_of (kalman_record s1) ts = Some y \<and>
           (\<forall>n. value_at n (heap s1) y = value_at n (heap s) (kalman s)) \<and>
           (\<forall>evs s2. own_run depth evs s1 \<and> run depth evs s1 = Inr s2 \<longrightarrow>
              kalman_record s2 = kalman_record s1 \<and>
              (\<forall>(t, x) \<in> set (kalman_record s1).
                 \<forall>n. value_at n (heap s2) x = value_at n (heap s1) x) \<and>
              get_positions s2 = get_positions s1 \<and>
              get_attitude s2 = get_attitude s1 \<and>
              (\<forall>(t, x) \<in> set (kalman_record s1). \<forall>q n.
                 getattr (heap s1) x ''attitude'' = Inr q \<longrightarrow>
                 value_at n (heap s2) q = value_at n (heap s1) q))"
proof -
  from recorder_record_returns[OF separatedD(1)[OF assms(1)] separatedD(2)[OF assms(1)] assms(2)]
  obtain s1 where rec: "recorder_record depth ts s = Inr s1" by blast
  note a = recorder_record_separated[OF assms(1) rec]
  from recorder_record_copy[OF assms(1) rec] obtain y where
    y: "map_of (kalman_record s1) ts = Some y"
      "\<forall>n. value_at n (heap s1) y = value_at n (heap s) (kalman s)"
    by blast
  have "kalman_record s2 = kalman_record s1 \<and>
        (\<forall>(t, x) \<in> set (kalman_record s1).
           \<forall>n. value_at n (heap s2) x = value_at n (heap s1) x) \<and>
        get_positions s2 = get_positions s1 \<and>
        get_attitude s2 = get_attitude s1 \<and>
        (\<forall>(t, x) \<in> set (kalman_record s1). \<forall>q n.
           getattr (heap s1) x ''attitude'' = Inr q \<longrightarrow>
           value_at n (heap s2) q = value_at n (heap s1) q)"
    if own: "own_run depth evs s1" and r: "run depth evs s1 = Inr s2" for evs s2
  proof -
    note b = own_run_separated[OF a(1) own r]
    from b have kr: "kalman_record s2 = kalman_record s1" by simp
    have u: "unchanged (heap s1) (heap s2) (reach (heap s1) x)"
      if "(t, x) \<in> set (kalman_record s1)" for t x
      using b that by auto
    have v: "\<forall>(t, x) \<in> set (kalman_record s1).
               \<forall>n. value_at n (heap s2) x = value_at n (heap s1) x"
      using u by (auto intro: value_at_unchanged)
    have p: "get_positions s2 = get_positions s1"
      unfolding get_positions_def kr
      by (rule collect_cong) (auto intro: position_of_unchanged u)
    have g: "get_attitude s2 = get_attitude s1"
      unfolding get_attitude_def kr
      by (rule collect_cong) (auto intro: getattr_unchanged u)
    have q: "value_at n (heap s2) q = value_at n (heap s1) q"
      if e: "(t, x) \<in> set (kalman_record s1)" and ga: "getattr (heap s1) x ''attitude'' = Inr q"
      for t x q n
    proof -
      from ga obtain fs where fs: "x < length (heap s1)" "heap s1 ! x = Obj fs"
        "map_of fs ''attitude'' = Some q"
        by (auto simp: getattr_def split: if_splits cell.splits option.splits)
      then have "q \<in> refs (heap s1 ! x)" by (force dest: map_of_SomeD)
      with reach.root[of x "heap s1"] fs(1) have "reach (heap s1) q \<subseteq> reach (heap s1) x"
        by (rule reach_step_sub)
      with u[OF e] have "unchanged (heap s1) (heap s2) (reach (heap s1) q)"
        by (rule unchanged_sub)
      then show ?thesis by (rule value_at_unchanged)
    qed
    from kr v p g q show ?thesis by blast
  qed
  with rec y show ?thesis by blast
qed

theorem record_independent_copy_witness:
  "separated fresh_recorder \<and> length (heap fresh_recorder) < 8 \<and>
   recorder_record 8 3 fresh_recorder = Inr recorded_once \<and>
   own_run 8 [Write 1 (Arr [1, 0, 0])] recorded_once \<and>
   run 8 [Write 1 (Arr [1, 0, 0])] recorded_once = Inr moved_on \<and>
   get_positions moved_on = get_positions recorded_once \<and>
   get_positions moved_on = Inr [[3, 0, 0]] \<and>
   position_of (heap moved_on) (kalman moved_on) = Inr [1, 0, 0]"
proof -
  have l: "length (heap fresh_recorder) < 8"
    by (simp add: fresh_recorder_def estimator_heap_def)
  from record_independent_copy[OF fresh_recorder_separated l, of 3]
  have "get_positions moved_on = get_positions recorded_once"
    using moved_on_own moved_on_run unfolding recorded_once_run by blast
  moreover have "get_positions moved_on = Inr [[3, 0, 0]]"
    by code_simp
  moreover have "position_of (heap moved_on) (kalman moved_on) = Inr [1, 0, 0]"
    by code_simp
  ultimately show ?thesis
    using fresh_recorder_separated l recorded_once_run moved_on_own moved_on_run by blast
qed

section \<open>The order of the projections\<close>

lemma keys_dict_set:
  "map fst (dict_set kvs k v) =
     (if k \<in> set (map fst kvs) then map fst kvs else map fst kvs @ [k])"
  by (induction kvs) (force split: if_splits)+

lemma keys_recorder_record:
  "recorder_record depth ts s = Inr s' \<Longrightarrow>
   map fst (kalman_record s') = insertion_order (map fst (kalman_record s)) [ts]"
  by (auto simp: recorder_record_def keys_dict_set simp del: set_map split: sum.splits)

lemma keys_step:
  "step depth ev s = Inr s' \<Longrightarrow>
   map fst (kalman_record s') = insertion_order (map fst (kalman_record s)) (recorded [ev])"
  by (cases ev) (auto simp: keys_recorder_record split: if_splits cell.splits)

lemma insertion_order_append:
  "insertion_order keys (ks @ ks') = insertion_order (insertion_order keys ks) ks'"
  by (induction ks arbitrary: keys) auto

lemma recorded_Cons: "recorded (ev # evs) = recorded [ev] @ recorded evs"
  by (cases ev) auto

lemma keys_run:
  "run depth evs s = Inr s' \<Longrightarrow>
   map fst (kalman_record s') = insertion_order (map fst (kalman_record s)) (recorded evs)"
proof (induction evs arbitrary: s)
  case Nil
  then show ?case by simp
next
  case (Cons ev evs)
  from Cons.prems obtain s1
    where s1: "step depth ev s = Inr s1" and r: "run depth evs s1 = Inr s'"
    by (auto split: sum.splits)
  have "map fst (kalman_record s') = insertion_order (map fst (kalman_record s1)) (recorded evs)"
    using Cons.IH[OF r] .
  also have "map fst (kalman_record s1) =
               insertion_order (map fst (kalman_record s)) (recorded [ev])"
    using keys_step[OF s1] .
  finally show ?case
    by (subst recorded_Cons) (simp only: insertion_order_append)
qed

lemma insertion_order_sorted:
  "sorted_wrt (<) (keys @ ks) \<Longrightarrow> insertion_order keys ks = keys @ (ks :: real list)"
proof (induction ks arbitrary: keys)
  case Nil
  then show ?case by simp
next
  case (Cons k ks)
  from Cons.prems have "k \<notin> set keys"
    by (auto simp: sorted_wrt_append)
  moreover from Cons.prems have "sorted_wrt (<) ((keys @ [k]) @ ks)"
    by simp
  ultimately show ?case using Cons.IH[of "keys @ [k]"] by simp
qed

lemma values_as_map: "map (\<lambda>(ts, x). f x) kvs = map f (map snd kvs)"
  by (induction kvs) auto

lemma run_snoc:
  "run depth (evs @ [ev]) s =
     (case run depth evs s of Inl e \<Rightarrow> Inl e | Inr s0 \<Rightarrow> step depth ev s0)"
  by (induction evs arbitrary: s) (auto split: sum.splits)

lemma map_of_dict_set_other: "t \<noteq> k \<Longrightarrow> map_of (dict_set kvs k v) t = map_of kvs t"
  by (induction kvs) auto

lemma recorder_record_binds:
  assumes rec: "recorder_record depth ts s = Inr s'"
  shows "\<exists>y. map_of (kalman_record s') ts = Some y \<and> length (heap s) \<le> y \<and>
           (\<forall>t. t \<noteq> ts \<longrightarrow> map_of (kalman_record s') t = map_of (kalman_record s) t)"
proof -
  from rec obtain y h' m' where
    dc: "deepcopy depth (kalman s) (heap s, Map.empty) = Inr (y, h', m')"
    and s': "s' = s\<lparr>heap := h', kalman_record := dict_set (kalman_record s) ts y\<rparr>"
    by (auto simp: recorder_record_def split: sum.splits)
  have p: "copy_post (heap s) (heap s) Map.empty h' m'" and my: "m' (kalman s) = Some y"
    using deepcopy_post(1)[OF dc, of "heap s"] in_copy_start[of "heap s"] by simp_all
  have "length (heap s) \<le> y"
    using in_copyD(3)[OF copy_postD(1)[OF p] my] by simp
  then show ?thesis using s' by (simp add: map_of_dict_set map_of_dict_set_other)
qed

text \<open>
  Claim C2, as the code has it: after any sequence of record calls (and of changes to the
  heap between them) the timestamps of \<^verbatim>\<open>kalman_record\<close> stand in the order in which
  they were first recorded, a timestamp recorded again keeping its place, and
  \<^verbatim>\<open>get_positions\<close> and \<^verbatim>\<open>get_attitude\<close> list the snapshots in that order. The order
  is the ascending one when the timestamps were recorded in ascending order, starting
  from an empty recorder. A record call binds its timestamp to the reference that this
  very call created (no cell of the heap before the call) and leaves what the other
  timestamps are bound to as it was.
\<close>

theorem projections_in_insertion_order:
  assumes "run depth evs s = Inr s'"
  shows "map fst (kalman_record s') =
           insertion_order (map fst (kalman_record s)) (recorded evs) \<and>
         get_positions s' = collect (map (position_of (heap s')) (map snd (kalman_record s'))) \<and>
         get_attitude s' =
           collect (map (\<lambda>x. getattr (heap s') x ''attitude'') (map snd (kalman_record s'))) \<and>
         (kalman_record s = [] \<and> sorted_wrt (<) (recorded evs) \<longrightarrow>
            map fst (kalman_record s') = recorded evs) \<and>
         (\<forall>evs0 ts s0. evs = evs0 @ [Record ts] \<and> run depth evs0 s = Inr s0 \<longrightarrow>
            (\<exists>y. map_of (kalman_record s') ts = Some y \<and> length (heap s0) \<le> y \<and>
                 (\<forall>t. t \<noteq> ts \<longrightarrow> map_of (kalman_record s') t = map_of (kalman_record s0) t)))"
proof -
  have last: "\<exists>y. map_of (kalman_record s') ts = Some y \<and> length (heap s0) \<le> y \<and>
                 (\<forall>t. t \<noteq> ts \<longrightarrow> map_of (kalman_record s') t = map_of (kalman_record s0) t)"
    if e: "evs = evs0 @ [Record ts]" and r0: "run depth evs0 s = Inr s0" for evs0 ts s0
  proof -
    from assms e r0 have "recorder_record depth ts s0 = Inr s'"
      by (simp add: run_snoc)
    then show ?thesis by (rule recorder_record_binds)
  qed
  have "map fst (kalman_record s') = insertion_order (map fst (kalman_record s)) (recorded evs)"
    using assms by (rule keys_run)
  moreover have "get_positions s' = collect (map (position_of (heap s')) (map snd (kalman_record s')))"
    by (simp add: get_positions_def values_as_map)
  moreover have "get_attitude s' =
           collect (map (\<lambda>x. getattr (heap s') x ''attitude'') (map snd (kalman_record s')))"
    by (simp add: get_attitude_def values_as_map)
  moreover have "kalman_record s = [] \<and> sorted_wrt (<) (recorded evs) \<longrightarrow>
            map fst (kalman_record s') = recorded evs"
    using keys_run[OF assms] insertion_order_sorted[of "[]" "recorded evs"] by simp
  ultimately show ?thesis using last by blast
qed

lemma in_order_run: "run 8 in_order fresh_recorder = Inr in_order_result"
  by code_simp

lemma record_again_before_run:
  "run 8 [Record 3, Write 1 (Arr [1, 0, 0]), Record 1, Write 1 (Arr [2, 0, 0])] fresh_recorder
     = Inr record_again_before"
  by code_simp

lemma record_again_run: "run 8 record_again fresh_recorder = Inr record_again_result"
  by code_simp

theorem projections_in_insertion_order_witness:
  "run 8 in_order fresh_recorder = Inr in_order_result \<and>
   kalman_record fresh_recorder = [] \<and> sorted_wrt (<) (recorded in_order) \<and>
   map fst (kalman_record in_order_result) = recorded in_order \<and>
   get_positions in_order_result = Inr [[3, 0, 0], [1, 0, 0]] \<and>
   run 8 record_again fresh_recorder = Inr record_again_result \<and>
   record_again = [Record 3, Write 1 (Arr [1, 0, 0]), Record 1, Write 1 (Arr [2, 0, 0])] @ [Record 3] \<and>
   run 8 [Record 3, Write 1 (Arr [1, 0, 0]), Record 1, Write 1 (Arr [2, 0, 0])] fresh_recorder
     = Inr record_again_before \<and>
   map fst (kalman_record record_again_result) = [3, 1] \<and>
   map_of (kalman_record record_again_before) 3 = Some 4 \<and>
   map_of (kalman_record record_again_result) 3 = Some 12 \<and>
   length (heap record_again_before) \<le> 12 \<and>
   map_of (kalman_record record_again_result) 1 = map_of (kalman_record record_again_before) 1 \<and>
   get_positions record_again_before = Inr [[3, 0, 0], [1, 0, 0]] \<and>
   get_positions record_again_result = Inr [[2, 0, 0], [1, 0, 0]]"
proof -
  have a: "kalman_record fresh_recorder = []"
    by (simp add: fresh_recorder_def)
  have b: "sorted_wrt (<) (recorded in_order)"
    by (simp add: in_order_def)
  have c: "get_positions in_order_result = Inr [[3, 0, 0], [1, 0, 0]]"
    by code_simp
  from projections_in_insertion_order[OF in_order_run] a b
  have d: "map fst (kalman_record in_order_result) = recorded in_order"
    by blast
  have e: "record_again =
             [Record 3, Write 1 (Arr [1, 0, 0]), Record 1, Write 1 (Arr [2, 0, 0])] @ [Record 3]"
    by (simp add: record_again_def)
  from projections_in_insertion_order[OF record_again_run] e record_again_before_run
  obtain y where y: "map_of (kalman_record record_again_result) 3 = Some y"
      "length (heap record_again_before) \<le> y"
      "\<forall>t. t \<noteq> 3 \<longrightarrow> map_of (kalman_record record_again_result) t
                      = map_of (kalman_record record_again_before) t"
    by blast
  have y12: "map_of (kalman_record record_again_result) 3 = Some 12"
    by (simp add: record_again_result_def)
  with y have f: "length (heap record_again_before) \<le> 12" by simp
  from y(3) have g: "map_of (kalman_record record_again_result) 1
                       = map_of (kalman_record record_again_before) 1" by simp
  have h: "map fst (kalman_record record_again_result) = [3, 1]"
    by (simp add: record_again_result_def)
  have i: "map_of (kalman_record record_again_before) 3 = Some 4"
    by (simp add: record_again_before_def)
  have j: "get_positions record_again_before = Inr [[3, 0, 0], [1, 0, 0]]"
    by code_simp
  have k: "get_positions record_again_result = Inr [[2, 0, 0], [1, 0, 0]]"
    by code_simp
  from in_order_run a b c d record_again_run e record_again_before_run h i y12 f g j k
  show ?thesis by blast
qed

text \<open>
  Recording at 3, 1, 2: the timestamps and the positions come out in the order 3, 1, 2;
  by ascending timestamp the positions would be those of 1, 2, 3.
\<close>

theorem projections_ascending_counterexample:
  "map_sum id (\<lambda>s. map fst (kalman_record s)) (run 8 out_of_order fresh_recorder)
     = Inr [3, 1, 2] \<and>
   map_sum id get_positions (run 8 out_of_order fresh_recorder)
     = Inr (Inr [[3, 0, 0], [1, 0, 0], [2, 0, 0]]) \<and>
   map_sum id
       (\<lambda>s. collect (map (\<lambda>(ts, x). position_of (heap s) x) (sort_key fst (kalman_record s))))
       (run 8 out_of_order fresh_recorder)
     = Inr (Inr [[1, 0, 0], [2, 0, 0], [3, 0, 0]]) \<and>
   map_sum id get_attitude (run 8 out_of_order fresh_recorder) = Inr (Inr [6, 10, 14])"
  by code_simp

end
